theory Spec2Isabelle
  imports Main "HOL-Library.FSet" "HOL-Library.Product_Lexorder"
begin

section \<open>The Minesweeper knowledge base of \<open>minesweeper.py\<close>\<close>

text \<open>
  A cell is a Python tuple \<open>(i, j)\<close> of two unbounded integers. A Python \<open>set\<close> of cells
  is a finite set, so it is an \<open>fset\<close>; \<open>len\<close> is \<open>fcard\<close>.
\<close>

type_synonym cell = "int \<times> int"

subsection \<open>class \<open>Minesweeper\<close>\<close>

text \<open>
  Of the game only \<open>nearby_mines\<close> matters to the agent: it is the count that the game
  reports for a cell. \<open>board\<close> is the list of rows of the source; the two loops run over
  the three rows and three columns around the cell, and the board is read only inside
  the bounds.
\<close>

definition around :: "cell \<Rightarrow> cell list" where
  "around cell = concat (map (\<lambda>r. map (\<lambda>c. (r, c)) [snd cell - 1..snd cell + 1])
                            [fst cell - 1..fst cell + 1])"

definition nearby_mines :: "int \<Rightarrow> int \<Rightarrow> bool list list \<Rightarrow> cell \<Rightarrow> int" where
  "nearby_mines h w board cell =
     fold (\<lambda>u n.
             if u = cell then n
             else if 0 \<le> fst u \<and> fst u < h \<and> 0 \<le> snd u \<and> snd u < w
               then (if board ! nat (fst u) ! nat (snd u) then n + 1 else n)
               else n)
          (around cell) 0"

subsection \<open>class \<open>Sentence\<close>\<close>

record sentence =
  cells :: "cell fset"
  count :: int

text \<open>
  \<open>Sentence.__eq__\<close> compares the two fields, which is the equality of the record.
  \<open>__ne__\<close> is not defined in the class, so Python 3 takes the negation of \<open>__eq__\<close>.
\<close>

text \<open>
  A method is a function from the object to the value it returns and the object after the
  call. \<open>known_mines\<close> and \<open>known_safes\<close> assign nothing, so they hand the sentence
  back as it came.
\<close>

definition known_mines :: "sentence \<Rightarrow> cell fset \<times> sentence" where
  "known_mines s =
     (if int (fcard (cells s)) = count s \<and> count s \<noteq> 0 then (cells s, s) else ({||}, s))"

definition known_safes :: "sentence \<Rightarrow> cell fset \<times> sentence" where
  "known_safes s = (if count s = 0 then (cells s, s) else ({||}, s))"

definition mark_mine :: "cell \<Rightarrow> sentence \<Rightarrow> sentence" where
  "mark_mine cell s =
     (if cell |\<in>| cells s
      then s\<lparr>cells := cells s |-| {|cell|}, count := count s - 1\<rparr>
      else s)"

definition mark_safe :: "cell \<Rightarrow> sentence \<Rightarrow> sentence" where
  "mark_safe cell s =
     (if cell |\<in>| cells s then s\<lparr>cells := cells s |-| {|cell|}\<rparr> else s)"

subsection \<open>class \<open>MinesweeperAI\<close>\<close>

text \<open>
  \<open>knowledge\<close> is a Python list of \<open>Sentence\<close> objects that are mutated in place. The
  code only ever appends freshly constructed objects to it and never removes one, so no
  object is in the list twice and the position of an object in the list is its address:
  the list of records below is the store, and a reference to a sentence already in the
  list is its index.
\<close>

record ai =
  height :: int
  width :: int
  moves_made :: "cell fset"
  mines :: "cell fset"
  safes :: "cell fset"
  knowledge :: "sentence list"

definition init_ai :: "int \<Rightarrow> int \<Rightarrow> ai" where
  "init_ai h w =
     \<lparr>height = h, width = w, moves_made = {||}, mines = {||}, safes = {||},
      knowledge = []\<rparr>"

definition ai_mark_mine :: "cell \<Rightarrow> ai \<Rightarrow> ai" where
  "ai_mark_mine cell a =
     a\<lparr>mines := finsert cell (mines a), knowledge := map (mark_mine cell) (knowledge a)\<rparr>"

definition ai_mark_safe :: "cell \<Rightarrow> ai \<Rightarrow> ai" where
  "ai_mark_safe cell a =
     a\<lparr>safes := finsert cell (safes a), knowledge := map (mark_safe cell) (knowledge a)\<rparr>"

text \<open>
  Step 3 of \<open>add_knowledge\<close>: the same two nested \<open>range\<close> loops around \<open>(i, j)\<close>,
  with the loop state \<open>(new_set, count)\<close>. The checks are in the order of the source: the cell
  itself and the known safes first, then the known mines, the bounds last.
\<close>

definition look :: "ai \<Rightarrow> cell \<Rightarrow> cell \<Rightarrow> cell fset \<times> int \<Rightarrow> cell fset \<times> int" where
  "look a cell u_cell st =
     (case st of (new_set, cnt) \<Rightarrow>
        if cell = u_cell \<or> u_cell |\<in>| safes a then (new_set, cnt)
        else if u_cell |\<in>| mines a then (new_set, cnt - 1)
        else if 0 \<le> fst u_cell \<and> fst u_cell < height a \<and>
                0 \<le> snd u_cell \<and> snd u_cell < width a
             then (finsert u_cell new_set, cnt)
             else (new_set, cnt))"

definition new_sentence :: "ai \<Rightarrow> cell \<Rightarrow> int \<Rightarrow> sentence" where
  "new_sentence a cell cnt =
     (case fold (look a cell) (around cell) ({||}, cnt) of
        (new_set, cnt') \<Rightarrow> \<lparr>cells = new_set, count = cnt'\<rparr>)"

text \<open>Steps 1 to 3: the move is recorded, the cell marked safe, the new sentence appended.\<close>

definition observe :: "ai \<Rightarrow> cell \<Rightarrow> int \<Rightarrow> ai" where
  "observe a cell cnt =
     (let a1 = a\<lparr>moves_made := finsert cell (moves_made a)\<rparr>;
          a2 = ai_mark_safe cell a1
      in a2\<lparr>knowledge := knowledge a2 @ [new_sentence a2 cell cnt]\<rparr>)"

text \<open>
  Step 4. \<open>for cell in sentence.known_mines().copy(): self.mark_mine(cell)\<close> runs over a
  copy of the set, in the order in which Python enumerates it, which the language leaves
  open; the model takes the ascending order, and \<open>mark_all\<close> does not depend on that
  choice (lemmas \<open>fold_ai_mark_mine_any_order\<close> and \<open>fold_ai_mark_safe_any_order\<close>).

  The outer loop reads \<open>knowledge[i]\<close> afresh at every index: the marks of earlier
  iterations have changed the sentences that come later, and the sentence under
  inspection is read again between the mines and the safes test, after the marking.
  Nothing is appended to the list during this loop.
\<close>

definition mark_all :: "(cell \<Rightarrow> ai \<Rightarrow> ai) \<Rightarrow> cell fset \<Rightarrow> ai \<Rightarrow> ai" where
  "mark_all mark S a = fold mark (sorted_list_of_fset S) a"

definition infer_at :: "nat \<Rightarrow> ai \<Rightarrow> ai" where
  "infer_at i a =
     (let a1 = (if fst (known_mines (knowledge a ! i)) \<noteq> {||}
                then mark_all ai_mark_mine (fst (known_mines (knowledge a ! i))) a else a)
      in if fst (known_safes (knowledge a1 ! i)) \<noteq> {||}
         then mark_all ai_mark_safe (fst (known_safes (knowledge a1 ! i))) a1 else a1)"

definition infer :: "ai \<Rightarrow> ai" where
  "infer a = fold infer_at [0..<length (knowledge a)] a"

text \<open>
  Step 5. The \<open>for\<close> loop runs over the list it appends to: Python's list iterator
  keeps an index and compares it with the current length, so the sentences appended by
  the loop are visited by it too. Nothing bounds the number of rounds, so the loop is a
  partial function: \<open>None\<close> is the loop that never ends. \<open>ns\<close> is \<open>new_sentence\<close>,
  which the loop does not change.
\<close>

partial_function (option) subsume :: "sentence \<Rightarrow> nat \<Rightarrow> sentence list \<Rightarrow> sentence list option"
  where
  "subsume ns i ks =
     (if i < length ks then
        (let s = ks ! i in
           if cells ns |\<subseteq>| cells s \<and> 0 < count s \<and> ns \<noteq> s then
             (let current_sentence =
                    \<lparr>cells = cells s |-| cells ns, count = count s - count ns\<rparr>
              in if current_sentence \<notin> set ks
                 then subsume ns (i + 1) (ks @ [current_sentence])
                 else subsume ns (i + 1) ks)
           else subsume ns (i + 1) ks)
      else Some ks)"

declare subsume.simps [code]

text \<open>
  \<open>add_knowledge\<close>. The variable \<open>new_sentence\<close> of the source refers to the object
  appended in step 3, which sits at the index that was the length of the list, and which
  step 4 mutates like every other sentence: step 5 reads it from the list there.
\<close>

definition add_knowledge :: "ai \<Rightarrow> cell \<Rightarrow> int \<Rightarrow> ai option" where
  "add_knowledge a cell cnt =
     (let a3 = observe a cell cnt;
          a4 = infer a3;
          ns = knowledge a4 ! length (knowledge a)
      in map_option (\<lambda>ks. a4\<lparr>knowledge := ks\<rparr>) (subsume ns 0 (knowledge a4)))"

text \<open>
  \<open>make_safe_move\<close>. \<open>random.choice\<close> draws an index into \<open>tuple(moves)\<close>; the draw is
  the parameter \<open>rnd\<close>, any natural number, reduced to the length of the tuple. The
  agent is returned with the answer, so that what the call does to it can be stated.
\<close>

definition make_safe_move :: "nat \<Rightarrow> ai \<Rightarrow> cell option \<times> ai" where
  "make_safe_move rnd a =
     (let moves = safes a |-| moves_made a
      in if moves \<noteq> {||}
         then (Some (sorted_list_of_fset moves ! (rnd mod fcard moves)), a)
         else (None, a))"

subsection \<open>Vocabulary of the properties\<close>

text \<open>The invariant of a sentence: \<open>0 <= count <= len(cells)\<close>.\<close>

definition sentence_ok :: "sentence \<Rightarrow> bool" where
  "sentence_ok s \<longleftrightarrow> 0 \<le> count s \<and> count s \<le> int (fcard (cells s))"

text \<open>
  A sequence of \<open>mark_mine\<close> and \<open>mark_safe\<close> calls on one sentence; \<open>run_calls\<close> lists
  the sentence after each call. A call is harmless for a sentence when it names a cell
  that is not in the sentence, or it takes a mine out of a sentence that has one to give,
  or a safe cell out of a sentence that has more cells than mines.
\<close>

datatype sentence_call = S_mark_mine cell | S_mark_safe cell

fun do_call :: "sentence_call \<Rightarrow> sentence \<Rightarrow> sentence" where
  "do_call (S_mark_mine c) s = mark_mine c s"
| "do_call (S_mark_safe c) s = mark_safe c s"

fun run_calls :: "sentence_call list \<Rightarrow> sentence \<Rightarrow> sentence list" where
  "run_calls [] s = []"
| "run_calls (c # cs) s = do_call c s # run_calls cs (do_call c s)"

fun harmless :: "sentence_call \<Rightarrow> sentence \<Rightarrow> bool" where
  "harmless (S_mark_mine c) s \<longleftrightarrow> c |\<notin>| cells s \<or> 1 \<le> count s"
| "harmless (S_mark_safe c) s \<longleftrightarrow> c |\<notin>| cells s \<or> count s < int (fcard (cells s))"

fun all_harmless :: "sentence_call list \<Rightarrow> sentence \<Rightarrow> bool" where
  "all_harmless [] s \<longleftrightarrow> True"
| "all_harmless (c # cs) s \<longleftrightarrow> harmless c s \<and> all_harmless cs (do_call c s)"

text \<open>
  What marking a whole set of cells does to one sentence: the cells leave it, and with
  the mines the count goes down by the number of them that were in it.
\<close>

definition take_mines :: "cell fset \<Rightarrow> sentence \<Rightarrow> sentence" where
  "take_mines S s =
     \<lparr>cells = cells s |-| S, count = count s - int (fcard (cells s |\<inter>| S))\<rparr>"

definition take_safes :: "cell fset \<Rightarrow> sentence \<Rightarrow> sentence" where
  "take_safes S s = \<lparr>cells = cells s |-| S, count = count s\<rparr>"

text \<open>
  The board of the agent and the eight coordinates around a cell, on the board or not.
\<close>

definition in_bounds :: "ai \<Rightarrow> cell \<Rightarrow> bool" where
  "in_bounds a u \<longleftrightarrow> 0 \<le> fst u \<and> fst u < height a \<and> 0 \<le> snd u \<and> snd u < width a"

definition neighbours :: "cell \<Rightarrow> cell fset" where
  "neighbours cell =
     (case cell of (i, j) \<Rightarrow>
        {|(i - 1, j - 1), (i - 1, j), (i - 1, j + 1), (i, j - 1), (i, j + 1),
          (i + 1, j - 1), (i + 1, j), (i + 1, j + 1)|})"

text \<open>
  The subsumption step: a sentence triggers it when \<open>new_sentence\<close> is a subset of it,
  its count is positive and it is not equal to \<open>new_sentence\<close>; the candidate is what
  is left of it without \<open>new_sentence\<close>.
\<close>

definition triggers :: "sentence \<Rightarrow> sentence \<Rightarrow> bool" where
  "triggers ns s \<longleftrightarrow> cells ns |\<subseteq>| cells s \<and> 0 < count s \<and> ns \<noteq> s"

definition candidate :: "sentence \<Rightarrow> sentence \<Rightarrow> sentence" where
  "candidate ns s = \<lparr>cells = cells s |-| cells ns, count = count s - count ns\<rparr>"

text \<open>
  What a run of the subsumption loop from index \<open>i\<close> on the list \<open>ks\<close> has done when it
  ends with \<open>ks'\<close>: it has appended sentences, each once, none of them equal to a sentence
  of \<open>ks\<close>, each the candidate of a triggering sentence of \<open>ks'\<close>; and the candidate of
  every triggering sentence from index \<open>i\<close> on is in \<open>ks'\<close>.
\<close>

definition shape :: "sentence \<Rightarrow> nat \<Rightarrow> sentence list \<Rightarrow> sentence list \<Rightarrow> bool" where
  "shape ns i ks ks' \<longleftrightarrow>
     (\<exists>new. ks' = ks @ new \<and> distinct new \<and> set new \<inter> set ks = {} \<and>
        (\<forall>x\<in>set new. \<exists>s\<in>set ks'. triggers ns s \<and> x = candidate ns s)) \<and>
     (\<forall>k. i \<le> k \<and> k < length ks' \<longrightarrow> triggers ns (ks' ! k) \<longrightarrow> candidate ns (ks' ! k) \<in> set ks')"

text \<open>
  Where the appended sentences come from: the list \<open>ks'\<close> begins with \<open>ks\<close>, and every
  sentence of \<open>ks'\<close> beyond \<open>ks\<close> is the candidate of a triggering sentence that stands
  before it in \<open>ks'\<close>, at index \<open>i\<close> or later.
\<close>

definition tight :: "sentence \<Rightarrow> nat \<Rightarrow> sentence list \<Rightarrow> sentence list \<Rightarrow> bool" where
  "tight ns i ks ks' \<longleftrightarrow>
     take (length ks) ks' = ks \<and>
     (\<forall>j. length ks \<le> j \<and> j < length ks' \<longrightarrow>
        (\<exists>k. i \<le> k \<and> k < j \<and> triggers ns (ks' ! k) \<and> ks' ! j = candidate ns (ks' ! k)))"

text \<open>
  The loop has a growing sentence ahead of it: \<open>new_sentence\<close> has no cell and a negative
  count, and at or after index \<open>i\<close> there is a sentence of positive count that no sentence
  of the list exceeds.
\<close>

definition ahead :: "sentence \<Rightarrow> nat \<Rightarrow> sentence list \<Rightarrow> bool" where
  "ahead ns i ks \<longleftrightarrow> cells ns = {||} \<and> count ns < 0 \<and>
     (\<exists>k. i \<le> k \<and> k < length ks \<and> 0 < count (ks ! k) \<and> (\<forall>s\<in>set ks. count s \<le> count (ks ! k)))"

text \<open>The agent after step 4 and the object \<open>new_sentence\<close> as step 5 finds it.\<close>

definition scanned :: "ai \<Rightarrow> cell \<Rightarrow> int \<Rightarrow> ai" where
  "scanned a cell cnt = infer (observe a cell cnt)"

definition scanned_sentence :: "ai \<Rightarrow> cell \<Rightarrow> int \<Rightarrow> sentence" where
  "scanned_sentence a cell cnt = knowledge (scanned a cell cnt) ! length (knowledge a)"

text \<open>
  Sequences of calls on the agent. \<open>ai_run\<close> is \<open>None\<close> when a call of the sequence does
  not return.
\<close>

datatype ai_call = Add_knowledge cell int | Mark_mine cell | Mark_safe cell

fun ai_step :: "ai_call \<Rightarrow> ai \<Rightarrow> ai option" where
  "ai_step (Add_knowledge cell cnt) a = add_knowledge a cell cnt"
| "ai_step (Mark_mine cell) a = Some (ai_mark_mine cell a)"
| "ai_step (Mark_safe cell) a = Some (ai_mark_safe cell a)"

fun ai_run :: "ai_call list \<Rightarrow> ai \<Rightarrow> ai option" where
  "ai_run [] a = Some a"
| "ai_run (c # cs) a = (case ai_step c a of None \<Rightarrow> None | Some a' \<Rightarrow> ai_run cs a')"

text \<open>No element lost: the three sets of the agent before are within those after.\<close>

definition grows :: "ai \<Rightarrow> ai \<Rightarrow> bool" where
  "grows a a' \<longleftrightarrow>
     moves_made a |\<subseteq>| moves_made a' \<and> mines a |\<subseteq>| mines a' \<and> safes a |\<subseteq>| safes a'"

text \<open>
  An agent is tidy when no cell is both a known mine and a known safe and no sentence
  mentions a cell that is either. A call is polite when it does not declare safe a known
  mine, nor a mine a known safe.
\<close>

definition tidy :: "ai \<Rightarrow> bool" where
  "tidy a \<longleftrightarrow> mines a |\<inter>| safes a = {||} \<and>
     list_all (\<lambda>s. cells s |\<inter>| (mines a |\<union>| safes a) = {||}) (knowledge a)"

fun polite :: "ai_call \<Rightarrow> ai \<Rightarrow> bool" where
  "polite (Add_knowledge cell cnt) a \<longleftrightarrow> cell |\<notin>| mines a"
| "polite (Mark_mine cell) a \<longleftrightarrow> cell |\<notin>| safes a"
| "polite (Mark_safe cell) a \<longleftrightarrow> cell |\<notin>| mines a"

fun all_polite :: "ai_call list \<Rightarrow> ai \<Rightarrow> bool" where
  "all_polite [] a \<longleftrightarrow> True"
| "all_polite (c # cs) a \<longleftrightarrow>
     polite c a \<and> (case ai_step c a of None \<Rightarrow> True | Some a' \<Rightarrow> all_polite cs a')"

text \<open>
  A board is the set \<open>B\<close> of its mines. A sentence is true of it when its count is the
  number of its cells that are mines; an agent is sound for it when the mines are on the
  agent's board, its known mines are mines, its known safes are not and its sentences
  are true; a report \<open>(cell, cnt)\<close> is truthful when the cell is no mine and \<open>cnt\<close> is the
  number of mines around it. \<open>mines_of\<close> is the set of the mines of a game, for which
  \<open>nearby_mines\<close> gives that number (lemma \<open>nearby_mines_count\<close>).
\<close>

definition true_of :: "cell fset \<Rightarrow> sentence \<Rightarrow> bool" where
  "true_of B s \<longleftrightarrow> count s = int (fcard (cells s |\<inter>| B))"

definition sound :: "cell fset \<Rightarrow> ai \<Rightarrow> bool" where
  "sound B a \<longleftrightarrow> ffilter (in_bounds a) B = B \<and> mines a |\<subseteq>| B \<and> safes a |\<inter>| B = {||} \<and>
     list_all (true_of B) (knowledge a)"

definition mines_of :: "int \<Rightarrow> int \<Rightarrow> bool list list \<Rightarrow> cell fset" where
  "mines_of h w board =
     ffilter (\<lambda>u. board ! nat (fst u) ! nat (snd u))
       (fset_of_list (concat (map (\<lambda>r. map (\<lambda>c. (r, c)) [0..w - 1]) [0..h - 1])))"

definition truthful :: "cell fset \<Rightarrow> cell \<Rightarrow> int \<Rightarrow> bool" where
  "truthful B cell cnt \<longleftrightarrow> cell |\<notin>| B \<and> cnt = int (fcard (neighbours cell |\<inter>| B))"

subsection \<open>Agents in the middle of a game\<close>

text \<open>
  A 3 by 3 agent after \<open>add_knowledge((1, 1), 1)\<close>, the same after
  \<open>add_knowledge((0, 1), 1)\<close> as well, and a 1 by 5 agent after
  \<open>add_knowledge((0, 0), 1)\<close> and \<open>add_knowledge((0, 3), 1)\<close> (lemmas \<open>run_centre\<close>,
  \<open>run_edge\<close> and \<open>run_strip\<close>).
\<close>

definition centre_opened :: ai where
  "centre_opened = \<lparr>height = 3, width = 3, moves_made = {|(1, 1)|}, mines = {||}, safes = {|(1, 1)|},
     knowledge = [\<lparr>cells = {|(0, 0), (0, 1), (0, 2), (1, 0), (1, 2), (2, 0), (2, 1), (2, 2)|},
                   count = 1\<rparr>]\<rparr>"

definition edge_opened :: ai where
  "edge_opened = \<lparr>height = 3, width = 3, moves_made = {|(0, 1), (1, 1)|},
     mines = {||}, safes = {|(0, 1), (1, 1)|},
     knowledge =
       [\<lparr>cells = {|(0, 0), (0, 2), (1, 0), (1, 2), (2, 0), (2, 1), (2, 2)|}, count = 1\<rparr>,
        \<lparr>cells = {|(0, 0), (0, 2), (1, 0), (1, 2)|}, count = 1\<rparr>,
        \<lparr>cells = {|(2, 0), (2, 1), (2, 2)|}, count = 0\<rparr>]\<rparr>"

definition strip_opened :: ai where
  "strip_opened = \<lparr>height = 1, width = 5, moves_made = {|(0, 0), (0, 3)|},
     mines = {|(0, 1)|}, safes = {|(0, 0), (0, 3)|},
     knowledge = [\<lparr>cells = {||}, count = 0\<rparr>, \<lparr>cells = {|(0, 2), (0, 4)|}, count = 1\<rparr>]\<rparr>"

text \<open>
  Two 3 by 3 agents fed with reports that no board gives: after \<open>add_knowledge((0, 0), 3)\<close>
  and \<open>add_knowledge((0, 1), 0)\<close>, and after \<open>add_knowledge((1, 1), 1)\<close> and
  \<open>add_knowledge((0, 1), 3)\<close> (lemma \<open>run_overcounted\<close>).
\<close>

definition muddled :: ai where
  "muddled = \<lparr>height = 3, width = 3, moves_made = {|(0, 0), (0, 1)|},
     mines = {|(0, 1), (1, 0), (1, 1)|}, safes = {|(0, 0), (0, 1)|},
     knowledge = [\<lparr>cells = {||}, count = 0\<rparr>, \<lparr>cells = {|(0, 2), (1, 2)|}, count = - 2\<rparr>]\<rparr>"

definition overcounted :: ai where
  "overcounted = \<lparr>height = 3, width = 3, moves_made = {|(0, 1), (1, 1)|},
     mines = {||}, safes = {|(0, 1), (1, 1)|},
     knowledge =
       [\<lparr>cells = {|(0, 0), (0, 2), (1, 0), (1, 2), (2, 0), (2, 1), (2, 2)|}, count = 1\<rparr>,
        \<lparr>cells = {|(0, 0), (0, 2), (1, 0), (1, 2)|}, count = 3\<rparr>,
        \<lparr>cells = {|(2, 0), (2, 1), (2, 2)|}, count = - 2\<rparr>]\<rparr>"

section \<open>Sentences\<close>

lemma fcard_minus1: "c |\<in>| A \<Longrightarrow> int (fcard (A |-| {|c|})) = int (fcard A) - 1"
  by (metis fcard_Suc_fminus1 of_nat_Suc add_diff_cancel_right' add.commute)

lemma mark_mine_ok_iff:
  assumes "sentence_ok s"
  shows "sentence_ok (mark_mine c s) \<longleftrightarrow> c |\<notin>| cells s \<or> 1 \<le> count s"
proof (cases "c |\<in>| cells s")
  case True
  then show ?thesis using assms fcard_minus1 [OF True]
    by (simp add: sentence_ok_def mark_mine_def del: fcard_fminus_finsert) linarith
next
  case False
  then show ?thesis using assms by (simp add: mark_mine_def)
qed

lemma mark_safe_ok_iff:
  assumes "sentence_ok s"
  shows "sentence_ok (mark_safe c s) \<longleftrightarrow> c |\<notin>| cells s \<or> count s < int (fcard (cells s))"
proof (cases "c |\<in>| cells s")
  case True
  then show ?thesis using assms fcard_minus1 [OF True]
    by (simp add: sentence_ok_def mark_safe_def del: fcard_fminus_finsert)
next
  case False
  then show ?thesis using assms by (simp add: mark_safe_def)
qed

lemma do_call_ok_iff: "sentence_ok s \<Longrightarrow> sentence_ok (do_call c s) \<longleftrightarrow> harmless c s"
  by (cases c) (simp_all add: mark_mine_ok_iff mark_safe_ok_iff)

text \<open>
  Marking a list of distinct cells, one after the other, in one sentence and in the agent.
\<close>

lemma fold_mark_mine:
  "distinct xs \<Longrightarrow> fold mark_mine xs s = take_mines (fset_of_list xs) s"
proof (induction xs arbitrary: s)
  case Nil
  then show ?case by (simp add: take_mines_def fcard_fempty)
next
  case (Cons x xs)
  have a: "x |\<notin>| fset_of_list xs" using Cons.prems by (simp add: fset_of_list_elem)
  have d: "distinct xs" using Cons.prems by simp
  have e: "cells s |-| {|x|} |-| fset_of_list xs = cells s |-| finsert x (fset_of_list xs)"
    by auto
  show ?case
  proof (cases "x |\<in>| cells s")
    case True
    have i: "cells s |\<inter>| finsert x (fset_of_list xs) = finsert x (cells s |\<inter>| fset_of_list xs)"
      using True by auto
    have j: "(cells s |-| {|x|}) |\<inter>| fset_of_list xs = cells s |\<inter>| fset_of_list xs"
      using a by auto
    have k: "x |\<notin>| cells s |\<inter>| fset_of_list xs" using a by simp
    have "fold mark_mine (x # xs) s =
            fold mark_mine xs (s\<lparr>cells := cells s |-| {|x|}, count := count s - 1\<rparr>)"
      using True by (simp add: mark_mine_def)
    then show ?thesis
      by (simp add: Cons.IH [OF d] take_mines_def e i j fcard_finsert_disjoint [OF k])
  next
    case False
    have i: "cells s |\<inter>| finsert x (fset_of_list xs) = cells s |\<inter>| fset_of_list xs"
      using False by auto
    have j: "cells s |-| finsert x (fset_of_list xs) = cells s |-| fset_of_list xs"
      using False by auto
    have "fold mark_mine (x # xs) s = fold mark_mine xs s"
      using False by (simp add: mark_mine_def)
    then show ?thesis by (simp add: Cons.IH [OF d] take_mines_def i j)
  qed
qed

lemma fold_mark_safe: "fold mark_safe xs s = take_safes (fset_of_list xs) s"
proof (induction xs arbitrary: s)
  case Nil
  then show ?case by (simp add: take_safes_def)
next
  case (Cons x xs)
  have e: "cells s |-| {|x|} |-| fset_of_list xs = cells s |-| finsert x (fset_of_list xs)"
    by auto
  have j: "x |\<notin>| cells s \<Longrightarrow> cells s |-| finsert x (fset_of_list xs) = cells s |-| fset_of_list xs"
    by auto
  have s: "mark_safe x s = s\<lparr>cells := cells s |-| {|x|}\<rparr>"
    by (simp add: mark_safe_def j)
  have "fold mark_safe (x # xs) s = fold mark_safe xs (mark_safe x s)" by simp
  also have "\<dots> = take_safes (fset_of_list xs) (mark_safe x s)"
    by (rule Cons.IH)
  also have "\<dots> = take_safes (fset_of_list (x # xs)) s"
    by (simp add: s e take_safes_def)
  finally show ?case .
qed

lemma mark_safe_cells: "cells (mark_safe c s) = cells s |-| {|c|}"
  by (auto simp add: mark_safe_def)

lemma mark_mine_cells: "cells (mark_mine c s) = cells s |-| {|c|}"
  by (auto simp add: mark_mine_def)

text \<open>
  C7. \<open>known_mines\<close> returns all the cells when \<open>len(cells) == count\<close> and
  \<open>count != 0\<close>, and the empty set in every other case; what it returns is not empty
  exactly in the first case; the sentence after the call is the sentence before it.
\<close>

theorem known_mines_all_or_nothing:
  "fst (known_mines s) =
     (if int (fcard (cells s)) = count s \<and> count s \<noteq> 0 then cells s else {||})
   \<and> (fst (known_mines s) \<noteq> {||} \<longleftrightarrow> int (fcard (cells s)) = count s \<and> count s \<noteq> 0)
   \<and> snd (known_mines s) = s"
  by (auto simp: known_mines_def fcard_fempty)

theorem known_mines_all_or_nothing_witness:
  "fst (known_mines \<lparr>cells = {|(0, 0), (0, 1)|}, count = 2\<rparr>) = {|(0, 0), (0, 1)|}
   \<and> fst (known_mines \<lparr>cells = {|(0, 0), (0, 1)|}, count = 1\<rparr>) = {||}
   \<and> fst (known_mines \<lparr>cells = {||}, count = 0\<rparr>) = {||}
   \<and> snd (known_mines \<lparr>cells = {|(0, 0), (0, 1)|}, count = 2\<rparr>)
       = \<lparr>cells = {|(0, 0), (0, 1)|}, count = 2\<rparr>"
  using known_mines_all_or_nothing [of "\<lparr>cells = {|(0, 0), (0, 1)|}, count = 2\<rparr>"]
    known_mines_all_or_nothing [of "\<lparr>cells = {|(0, 0), (0, 1)|}, count = 1\<rparr>"]
    known_mines_all_or_nothing [of "\<lparr>cells = {||}, count = 0\<rparr>"]
  by (simp add: fcard_finsert_if fcard_fempty)

text \<open>
  C2, as the spec states it, fails: \<open>mark_safe\<close> takes the only cell out of the sentence
  \<open>{(0, 0)} = 1\<close> and leaves \<open>{} = 1\<close>, a count above the number of cells; \<open>mark_mine\<close>
  takes a cell out of \<open>{(0, 0)} = 0\<close> and leaves \<open>{} = -1\<close>.
\<close>

theorem mark_breaks_invariant:
  "sentence_ok \<lparr>cells = {|(0, 0)|}, count = 1\<rparr>
   \<and> \<not> sentence_ok (mark_safe (0, 0) \<lparr>cells = {|(0, 0)|}, count = 1\<rparr>)
   \<and> sentence_ok \<lparr>cells = {|(0, 0)|}, count = 0\<rparr>
   \<and> \<not> sentence_ok (mark_mine (0, 0) \<lparr>cells = {|(0, 0)|}, count = 0\<rparr>)"
  by (simp add: sentence_ok_def mark_safe_def mark_mine_def fcard_finsert_if fcard_fempty)

text \<open>
  C2, amended. From a sentence that satisfies \<open>0 <= count <= len(cells)\<close>, the invariant
  holds after each call of a sequence of \<open>mark_mine\<close> and \<open>mark_safe\<close> calls exactly
  when every call is harmless for the sentence it is applied to.
\<close>

theorem invariant_along_calls:
  "sentence_ok s \<Longrightarrow> list_all sentence_ok (run_calls cs s) \<longleftrightarrow> all_harmless cs s"
proof (induction cs arbitrary: s)
  case Nil
  then show ?case by simp
next
  case (Cons c cs)
  show ?case
  proof (cases "harmless c s")
    case True
    then have "sentence_ok (do_call c s)" using Cons.prems by (simp add: do_call_ok_iff)
    then show ?thesis using True Cons.IH by simp
  next
    case False
    then have "\<not> sentence_ok (do_call c s)" using Cons.prems by (simp add: do_call_ok_iff)
    then show ?thesis using False by simp
  qed
qed

theorem invariant_along_calls_witness:
  "sentence_ok \<lparr>cells = {|(0, 0), (0, 1), (0, 2)|}, count = 1\<rparr>
   \<and> list_all sentence_ok
        (run_calls [S_mark_safe (0, 2), S_mark_mine (0, 0), S_mark_safe (5, 5)]
           \<lparr>cells = {|(0, 0), (0, 1), (0, 2)|}, count = 1\<rparr>)
   \<and> \<not> list_all sentence_ok
        (run_calls [S_mark_mine (0, 0), S_mark_mine (0, 1)]
           \<lparr>cells = {|(0, 0), (0, 1), (0, 2)|}, count = 1\<rparr>)"
proof -
  have ok: "sentence_ok \<lparr>cells = {|(0, 0), (0, 1), (0, 2)|}, count = 1\<rparr>"
    by (simp add: sentence_ok_def fcard_finsert_if)
  show ?thesis
    using ok invariant_along_calls [OF ok, of "[S_mark_safe (0, 2), S_mark_mine (0, 0), S_mark_safe (5, 5)]"]
      invariant_along_calls [OF ok, of "[S_mark_mine (0, 0), S_mark_mine (0, 1)]"]
    by (simp add: mark_safe_def mark_mine_def fcard_finsert_if fcard_fempty)
qed

section \<open>The agent\<close>

subsection \<open>Marking a set of cells\<close>

lemma fold_ai_mark_mine:
  "fold ai_mark_mine xs a =
     a\<lparr>mines := mines a |\<union>| fset_of_list xs,
       knowledge := map (fold mark_mine xs) (knowledge a)\<rparr>"
proof (induction xs arbitrary: a)
  case Nil
  then show ?case by simp
next
  case (Cons x xs)
  have e: "finsert x (mines a) |\<union>| fset_of_list xs = mines a |\<union>| finsert x (fset_of_list xs)"
    by auto
  have s: "ai_mark_mine x a =
             a\<lparr>mines := finsert x (mines a), knowledge := map (mark_mine x) (knowledge a)\<rparr>"
    by (simp add: ai_mark_mine_def)
  have "fold ai_mark_mine (x # xs) a = fold ai_mark_mine xs (ai_mark_mine x a)" by simp
  also have "\<dots> = (ai_mark_mine x a)\<lparr>mines := mines (ai_mark_mine x a) |\<union>| fset_of_list xs,
       knowledge := map (fold mark_mine xs) (knowledge (ai_mark_mine x a))\<rparr>"
    by (rule Cons.IH)
  also have "\<dots> = a\<lparr>mines := mines a |\<union>| fset_of_list (x # xs),
       knowledge := map (fold mark_mine (x # xs)) (knowledge a)\<rparr>"
    by (simp add: s e)
  finally show ?case .
qed

lemma fold_ai_mark_safe:
  "fold ai_mark_safe xs a =
     a\<lparr>safes := safes a |\<union>| fset_of_list xs,
       knowledge := map (fold mark_safe xs) (knowledge a)\<rparr>"
proof (induction xs arbitrary: a)
  case Nil
  then show ?case by simp
next
  case (Cons x xs)
  have e: "finsert x (safes a) |\<union>| fset_of_list xs = safes a |\<union>| finsert x (fset_of_list xs)"
    by auto
  have s: "ai_mark_safe x a =
             a\<lparr>safes := finsert x (safes a), knowledge := map (mark_safe x) (knowledge a)\<rparr>"
    by (simp add: ai_mark_safe_def)
  have "fold ai_mark_safe (x # xs) a = fold ai_mark_safe xs (ai_mark_safe x a)" by simp
  also have "\<dots> = (ai_mark_safe x a)\<lparr>safes := safes (ai_mark_safe x a) |\<union>| fset_of_list xs,
       knowledge := map (fold mark_safe xs) (knowledge (ai_mark_safe x a))\<rparr>"
    by (rule Cons.IH)
  also have "\<dots> = a\<lparr>safes := safes a |\<union>| fset_of_list (x # xs),
       knowledge := map (fold mark_safe (x # xs)) (knowledge a)\<rparr>"
    by (simp add: s e)
  finally show ?case .
qed

lemma distinct_sorted_list_of_fset: "distinct (sorted_list_of_fset S)"
  by (simp add: sorted_list_of_fset.rep_eq)

lemma mark_all_mines:
  "mark_all ai_mark_mine S a =
     a\<lparr>mines := mines a |\<union>| S, knowledge := map (take_mines S) (knowledge a)\<rparr>"
  by (simp add: mark_all_def fold_ai_mark_mine fold_mark_mine distinct_sorted_list_of_fset)

lemma mark_all_safes:
  "mark_all ai_mark_safe S a =
     a\<lparr>safes := safes a |\<union>| S, knowledge := map (take_safes S) (knowledge a)\<rparr>"
  by (simp add: mark_all_def fold_ai_mark_safe fold_mark_safe)

text \<open>
  The order in which the cells of the set are marked does not matter: every enumeration
  of the set without repetition gives what the ascending one gives.
\<close>

lemma fold_ai_mark_mine_any_order:
  "distinct xs \<Longrightarrow> fset_of_list xs = S \<Longrightarrow> fold ai_mark_mine xs a = mark_all ai_mark_mine S a"
  by (auto simp add: mark_all_mines fold_ai_mark_mine fold_mark_mine)

lemma fold_ai_mark_safe_any_order:
  "fset_of_list xs = S \<Longrightarrow> fold ai_mark_safe xs a = mark_all ai_mark_safe S a"
  by (auto simp add: mark_all_safes fold_ai_mark_safe fold_mark_safe)

subsection \<open>Steps 1 to 3: the new sentence\<close>

lemma upto3: "[i - 1..i + 1] = [i - 1, i, i + (1::int)]"
  by (simp add: upto_rec1)

lemma around_eq:
  "around (i, j) = [(i - 1, j - 1), (i - 1, j), (i - 1, j + 1), (i, j - 1), (i, j), (i, j + 1),
    (i + 1, j - 1), (i + 1, j), (i + 1, j + 1)]"
  by (simp add: around_def upto3)

lemma distinct_around: "distinct (around cell)"
  by (cases cell) (simp add: around_eq)

lemma fset_of_list_around: "fset_of_list (around cell) = finsert cell (neighbours cell)"
  by (cases cell) (auto simp add: around_eq neighbours_def)

lemma not_in_neighbours: "cell |\<notin>| neighbours cell"
  by (cases cell) (simp add: neighbours_def)

lemma fold_look:
  "distinct xs \<Longrightarrow> fset_of_list xs |\<inter>| S = {||} \<Longrightarrow>
   fold (look a cell) xs (S, n) =
     (S |\<union>| ffilter (\<lambda>u. u \<noteq> cell \<and> u |\<notin>| safes a \<and> u |\<notin>| mines a \<and> in_bounds a u) (fset_of_list xs),
      n - int (fcard (ffilter (\<lambda>u. u \<noteq> cell \<and> u |\<notin>| safes a \<and> u |\<in>| mines a) (fset_of_list xs))))"
proof (induction xs arbitrary: S n)
  case Nil
  then show ?case by (auto simp add: fcard_fempty)
next
  case (Cons x xs)
  have nx: "x |\<notin>| fset_of_list xs" using Cons.prems by (simp add: fset_of_list_elem)
  have d: "distinct xs" using Cons.prems by simp
  let ?P = "\<lambda>u. u \<noteq> cell \<and> u |\<notin>| safes a \<and> u |\<notin>| mines a \<and> in_bounds a u"
  let ?Q = "\<lambda>u. u \<noteq> cell \<and> u |\<notin>| safes a \<and> u |\<in>| mines a"
  have step: "fold (look a cell) (x # xs) (S, n) = fold (look a cell) xs (look a cell x (S, n))"
    by simp
  have lk: "look a cell x (S, n) = (if ?P x then finsert x S else S, if ?Q x then n - 1 else n)"
    by (auto simp add: look_def in_bounds_def)
  have fP: "ffilter ?P (fset_of_list (x # xs)) =
          (if ?P x then finsert x (ffilter ?P (fset_of_list xs)) else ffilter ?P (fset_of_list xs))"
    by auto
  have fQ: "ffilter ?Q (fset_of_list (x # xs)) =
          (if ?Q x then finsert x (ffilter ?Q (fset_of_list xs)) else ffilter ?Q (fset_of_list xs))"
    by auto
  have nQ: "x |\<notin>| ffilter ?Q (fset_of_list xs)" using nx by simp
  have dj: "fset_of_list xs |\<inter>| (if ?P x then finsert x S else S) = {||}"
    using Cons.prems nx by auto
  show ?case
    unfolding step lk
    by (subst Cons.IH [OF d dj]) (auto simp add: fP fQ fcard_finsert_disjoint [OF nQ] simp del: fset_of_list_simps)
qed

lemma new_sentence_eq:
  "new_sentence a cell cnt =
     \<lparr>cells = ffilter (\<lambda>u. u |\<notin>| safes a \<and> u |\<notin>| mines a \<and> in_bounds a u) (neighbours cell),
      count = cnt - int (fcard (ffilter (\<lambda>u. u |\<notin>| safes a \<and> u |\<in>| mines a) (neighbours cell)))\<rparr>"
proof -
  have p: "ffilter (\<lambda>u. u \<noteq> cell \<and> u |\<notin>| safes a \<and> u |\<notin>| mines a \<and> in_bounds a u)
             (finsert cell (neighbours cell))
           = ffilter (\<lambda>u. u |\<notin>| safes a \<and> u |\<notin>| mines a \<and> in_bounds a u) (neighbours cell)"
    using not_in_neighbours [of cell] by auto
  have q: "ffilter (\<lambda>u. u \<noteq> cell \<and> u |\<notin>| safes a \<and> u |\<in>| mines a)
             (finsert cell (neighbours cell))
           = ffilter (\<lambda>u. u |\<notin>| safes a \<and> u |\<in>| mines a) (neighbours cell)"
    using not_in_neighbours [of cell] by auto
  have "fset_of_list (around cell) |\<inter>| {||} = {||}" by simp
  from fold_look [OF distinct_around this, of a cell cnt]
  show ?thesis by (simp add: new_sentence_def fset_of_list_around p q)
qed

lemma observe_eq:
  "observe a cell cnt =
     a\<lparr>moves_made := finsert cell (moves_made a), safes := finsert cell (safes a),
       knowledge := map (mark_safe cell) (knowledge a) @
         [\<lparr>cells = ffilter (\<lambda>u. u |\<notin>| safes a \<and> u |\<notin>| mines a \<and> in_bounds a u) (neighbours cell),
           count = cnt - int (fcard (ffilter (\<lambda>u. u |\<notin>| safes a \<and> u |\<in>| mines a) (neighbours cell)))\<rparr>]\<rparr>"
proof -
  have p: "ffilter (\<lambda>u. u \<noteq> cell \<and> u |\<notin>| safes a \<and> u |\<notin>| mines a \<and> in_bounds a u) (neighbours cell)
           = ffilter (\<lambda>u. u |\<notin>| safes a \<and> u |\<notin>| mines a \<and> in_bounds a u) (neighbours cell)"
    using not_in_neighbours [of cell] by auto
  have q: "ffilter (\<lambda>u. u \<noteq> cell \<and> u |\<notin>| safes a \<and> u |\<in>| mines a) (neighbours cell)
           = ffilter (\<lambda>u. u |\<notin>| safes a \<and> u |\<in>| mines a) (neighbours cell)"
    using not_in_neighbours [of cell] by auto
  show ?thesis
    by (simp add: observe_def Let_def new_sentence_eq ai_mark_safe_def in_bounds_def p [unfolded in_bounds_def] q)
qed

lemma observe_grows: "grows a (observe a cell cnt)"
  by (auto simp add: observe_eq grows_def)


lemma observe_tidy: "tidy a \<Longrightarrow> cell |\<notin>| mines a \<Longrightarrow> tidy (observe a cell cnt)"
  unfolding tidy_def observe_eq list_all_iff
  using not_in_neighbours [of cell] by (auto simp add: mark_safe_cells)

lemma ai_mark_safe_tidy: "tidy a \<Longrightarrow> cell |\<notin>| mines a \<Longrightarrow> tidy (ai_mark_safe cell a)"
  unfolding tidy_def ai_mark_safe_def list_all_iff by (auto simp add: mark_safe_cells)

lemma ai_mark_mine_tidy: "tidy a \<Longrightarrow> cell |\<notin>| safes a \<Longrightarrow> tidy (ai_mark_mine cell a)"
  unfolding tidy_def ai_mark_mine_def list_all_iff by (auto simp add: mark_mine_cells)

subsection \<open>Step 4: the scan\<close>

lemma grows_refl: "grows a a" by (simp add: grows_def)

lemma grows_trans: "grows a b \<Longrightarrow> grows b c \<Longrightarrow> grows a c"
  by (auto simp add: grows_def)

lemma infer_at_grows: "grows a (infer_at i a)"
  by (auto simp add: infer_at_def Let_def grows_def mark_all_mines mark_all_safes)

lemma infer_at_length: "length (knowledge (infer_at i a)) = length (knowledge a)"
  by (simp add: infer_at_def Let_def mark_all_mines mark_all_safes)

lemma fold_infer_at_grows: "grows a (fold infer_at js a)"
proof (induction js arbitrary: a)
  case Nil
  show ?case by (simp add: grows_refl)
next
  case (Cons j js)
  show ?case using grows_trans [OF infer_at_grows Cons.IH] by simp
qed

lemma fold_infer_at_length: "length (knowledge (fold infer_at js a)) = length (knowledge a)"
  by (induction js arbitrary: a) (simp_all add: infer_at_length)

lemma tidy_mark_all_mines:
  "tidy a \<Longrightarrow> S |\<inter>| safes a = {||} \<Longrightarrow> tidy (mark_all ai_mark_mine S a)"
  unfolding tidy_def mark_all_mines list_all_iff by (auto simp add: take_mines_def)

lemma tidy_mark_all_safes:
  "tidy a \<Longrightarrow> S |\<inter>| mines a = {||} \<Longrightarrow> tidy (mark_all ai_mark_safe S a)"
  unfolding tidy_def mark_all_safes list_all_iff by (auto simp add: take_safes_def)

lemma tidy_nth:
  "tidy a \<Longrightarrow> i < length (knowledge a) \<Longrightarrow>
     cells (knowledge a ! i) |\<inter>| mines a = {||} \<and> cells (knowledge a ! i) |\<inter>| safes a = {||}"
  unfolding tidy_def list_all_length by auto

lemma infer_at_tidy:
  assumes "tidy a" and "i < length (knowledge a)"
  shows "tidy (infer_at i a)"
proof -
  define a1 where "a1 = (if fst (known_mines (knowledge a ! i)) \<noteq> {||}
                then mark_all ai_mark_mine (fst (known_mines (knowledge a ! i))) a else a)"
  have "fst (known_mines (knowledge a ! i)) |\<inter>| safes a = {||}"
    using tidy_nth [OF assms] by (simp add: known_mines_def)
  then have t1: "tidy a1" using assms(1) by (simp add: a1_def tidy_mark_all_mines)
  have l1: "i < length (knowledge a1)" using assms(2) by (simp add: a1_def mark_all_mines)
  have "fst (known_safes (knowledge a1 ! i)) |\<inter>| mines a1 = {||}"
    using tidy_nth [OF t1 l1] by (simp add: known_safes_def)
  then have "tidy (if fst (known_safes (knowledge a1 ! i)) \<noteq> {||}
         then mark_all ai_mark_safe (fst (known_safes (knowledge a1 ! i))) a1 else a1)"
    using t1 by (simp add: tidy_mark_all_safes)
  then show ?thesis unfolding infer_at_def Let_def a1_def .
qed

lemma fold_infer_at_tidy:
  "tidy a \<Longrightarrow> \<forall>j\<in>set js. j < length (knowledge a) \<Longrightarrow> tidy (fold infer_at js a)"
proof (induction js arbitrary: a)
  case Nil
  then show ?case by simp
next
  case (Cons j js)
  have "tidy (infer_at j a)" using Cons.prems by (simp add: infer_at_tidy)
  moreover have "\<forall>k\<in>set js. k < length (knowledge (infer_at j a))"
    using Cons.prems by (simp add: infer_at_length)
  ultimately show ?case using Cons.IH by simp
qed

lemma infer_tidy: "tidy a \<Longrightarrow> tidy (infer a)"
  by (simp add: infer_def fold_infer_at_tidy)

lemma infer_grows: "grows a (infer a)"
  by (simp add: infer_def fold_infer_at_grows)

subsection \<open>Step 5: the subsumption loop\<close>

lemma subsume_unfold:
  "subsume ns i ks =
     (if i < length ks then
        if triggers ns (ks ! i) \<and> candidate ns (ks ! i) \<notin> set ks
        then subsume ns (i + 1) (ks @ [candidate ns (ks ! i)])
        else subsume ns (i + 1) ks
      else Some ks)"
  by (subst subsume.simps) (simp add: Let_def triggers_def candidate_def)

lemma shape_stop: "\<not> i < length ks \<Longrightarrow> shape ns i ks ks"
  by (auto simp add: shape_def)

lemma shape_skip:
  assumes "i < length ks" and "\<not> triggers ns (ks ! i) \<or> candidate ns (ks ! i) \<in> set ks"
    and "shape ns (i + 1) ks ks'"
  shows "shape ns i ks ks'"
proof -
  from assms(3) obtain new where n: "ks' = ks @ new" "distinct new" "set new \<inter> set ks = {}"
    "\<forall>x\<in>set new. \<exists>s\<in>set ks'. triggers ns s \<and> x = candidate ns s"
    and later: "\<forall>k. i + 1 \<le> k \<and> k < length ks' \<longrightarrow> triggers ns (ks' ! k) \<longrightarrow> candidate ns (ks' ! k) \<in> set ks'"
    unfolding shape_def by blast
  have here: "ks' ! i = ks ! i" using assms(1) n(1) by (simp add: nth_append)
  have "triggers ns (ks' ! k) \<longrightarrow> candidate ns (ks' ! k) \<in> set ks'"
    if "i \<le> k" "k < length ks'" for k
  proof (cases "k = i")
    case True
    then show ?thesis using assms(2) here n(1) by auto
  next
    case False
    then show ?thesis using that later by simp
  qed
  then show ?thesis unfolding shape_def using n by blast
qed

lemma shape_append:
  assumes "i < length ks" and "triggers ns (ks ! i)" and "candidate ns (ks ! i) \<notin> set ks"
    and "shape ns (i + 1) (ks @ [candidate ns (ks ! i)]) ks'"
  shows "shape ns i ks ks'"
proof -
  let ?c = "candidate ns (ks ! i)"
  from assms(4) obtain new where n: "ks' = (ks @ [?c]) @ new" "distinct new"
    "set new \<inter> set (ks @ [?c]) = {}"
    "\<forall>x\<in>set new. \<exists>s\<in>set ks'. triggers ns s \<and> x = candidate ns s"
    and later: "\<forall>k. i + 1 \<le> k \<and> k < length ks' \<longrightarrow> triggers ns (ks' ! k) \<longrightarrow> candidate ns (ks' ! k) \<in> set ks'"
    unfolding shape_def by blast
  have here: "ks' ! i = ks ! i" using assms(1) n(1) by (simp add: nth_append)
  have mem: "ks ! i \<in> set ks'" using assms(1) n(1) by simp
  have a: "ks' = ks @ (?c # new)" using n(1) by simp
  have b: "distinct (?c # new)" using n(2,3) by auto
  have c: "set (?c # new) \<inter> set ks = {}" using n(3) assms(3) by auto
  have d: "\<forall>x\<in>set (?c # new). \<exists>s\<in>set ks'. triggers ns s \<and> x = candidate ns s"
    using n(4) assms(2) mem by auto
  have "triggers ns (ks' ! k) \<longrightarrow> candidate ns (ks' ! k) \<in> set ks'"
    if "i \<le> k" "k < length ks'" for k
  proof (cases "k = i")
    case True
    then show ?thesis using here n(1) by auto
  next
    case False
    then show ?thesis using that later by simp
  qed
  then show ?thesis unfolding shape_def using a b c d by blast
qed

lemma subsume_shape:
  assumes "subsume ns i ks = Some ks'"
  shows "shape ns i ks ks'"
proof (rule subsume.raw_induct [OF _ assms], goal_cases)
  case (1 f ns i ks ks')
  note IH = 1(1) and body = 1(2)
  show ?case
  proof (cases "i < length ks")
    case False
    then show ?thesis using body shape_stop by simp
  next
    case True
    show ?thesis
    proof (cases "triggers ns (ks ! i) \<and> candidate ns (ks ! i) \<notin> set ks")
      case yes: True
      then have "f ns (i + 1) (ks @ [candidate ns (ks ! i)]) = Some ks'"
        using body True by (simp add: Let_def triggers_def candidate_def)
      then have "shape ns (i + 1) (ks @ [candidate ns (ks ! i)]) ks'" by (rule IH)
      then show ?thesis using shape_append True yes by simp
    next
      case no: False
      then have "f ns (i + 1) ks = Some ks'"
        using body True by (auto simp add: Let_def triggers_def candidate_def split: if_splits)
      then have "shape ns (i + 1) ks ks'" by (rule IH)
      then show ?thesis using shape_skip [OF True] no by simp
    qed
  qed
qed


lemma candidate_lighter:
  assumes "cells ns \<noteq> {||} \<or> 0 \<le> count ns" and "triggers ns s" and "candidate ns s \<noteq> s"
  shows "(if cells ns = {||} then 1 + nat (count (candidate ns s))
          else if triggers ns (candidate ns s) then 2 else (1::nat))
       < (if cells ns = {||} then 1 + nat (count s) else if triggers ns s then 2 else 1)"
proof (cases "cells ns = {||}")
  case True
  have "count ns \<noteq> 0" using assms(3) True by (auto simp add: candidate_def)
  then have "0 < count ns" using assms(1) True by simp
  moreover have "0 < count s" using assms(2) by (simp add: triggers_def)
  ultimately show ?thesis using True by (simp add: candidate_def)
next
  case False
  have "\<not> cells ns |\<subseteq>| cells s |-| cells ns" using False by auto
  then have "\<not> triggers ns (candidate ns s)" by (simp add: triggers_def candidate_def)
  then show ?thesis using False assms(2) by simp
qed

lemma subsume_terminates:
  assumes "cells ns \<noteq> {||} \<or> 0 \<le> count ns"
  shows "\<exists>ks'. subsume ns i ks = Some ks'"
proof -
  define w where "w = (\<lambda>s. if cells ns = {||} then 1 + nat (count s)
                            else if triggers ns s then 2 else (1::nat))"
  have pos: "0 < w s" for s by (simp add: w_def)
  have dec: "w (candidate ns s) < w s" if "triggers ns s" "candidate ns s \<noteq> s" for s
    unfolding w_def using candidate_lighter [OF assms that] .
  show ?thesis
  proof (induction "sum_list (map w (drop i ks))" arbitrary: i ks rule: less_induct)
    case less
    show ?case
    proof (cases "i < length ks")
      case False
      then show ?thesis by (subst subsume_unfold) simp
    next
      case True
      have dr: "drop i ks = ks ! i # drop (Suc i) ks"
        using True by (simp add: Cons_nth_drop_Suc)
      show ?thesis
      proof (cases "triggers ns (ks ! i) \<and> candidate ns (ks ! i) \<notin> set ks")
        case yes: True
        have "candidate ns (ks ! i) \<noteq> ks ! i" using yes True by (metis nth_mem)
        then have "w (candidate ns (ks ! i)) < w (ks ! i)" using dec yes by simp
        then have "sum_list (map w (drop (i + 1) (ks @ [candidate ns (ks ! i)])))
                 < sum_list (map w (drop i ks))"
          using dr True by simp
        from less [OF this] obtain ks'
          where "subsume ns (i + 1) (ks @ [candidate ns (ks ! i)]) = Some ks'" by blast
        then show ?thesis using True yes by (subst subsume_unfold) simp
      next
        case no: False
        have "sum_list (map w (drop (i + 1) ks)) < sum_list (map w (drop i ks))"
          using dr pos by simp
        from less [OF this] obtain ks' where "subsume ns (i + 1) ks = Some ks'" by blast
        then show ?thesis using True no by (subst subsume_unfold) auto
      qed
    qed
  qed
qed

lemma ahead_step:
  assumes "ahead ns i ks"
  shows "i < length ks \<and>
         ahead ns (i + 1) (if triggers ns (ks ! i) \<and> candidate ns (ks ! i) \<notin> set ks
                           then ks @ [candidate ns (ks ! i)] else ks)"
proof -
  from assms obtain k where e: "cells ns = {||}" and n: "count ns < 0"
    and k: "i \<le> k" "k < length ks" "0 < count (ks ! k)" "\<forall>s\<in>set ks. count s \<le> count (ks ! k)"
    unfolding ahead_def by blast
  have il: "i < length ks" using k by simp
  let ?c = "candidate ns (ks ! i)"
  have cc: "count ?c = count (ks ! i) - count ns" by (simp add: candidate_def)
  have tr: "triggers ns (ks ! i)" if "0 < count (ks ! i)"
    using that e n by (auto simp add: triggers_def)
  show ?thesis
  proof (cases "triggers ns (ks ! i) \<and> ?c \<notin> set ks")
    case True
    then have pi: "0 < count (ks ! i)" by (simp add: triggers_def)
    show ?thesis
    proof (cases "count (ks ! k) \<le> count ?c")
      case big: True
      have "0 < count ((ks @ [?c]) ! length ks)" using pi n cc by simp
      moreover have "\<forall>s\<in>set (ks @ [?c]). count s \<le> count ((ks @ [?c]) ! length ks)"
        using k(4) big by auto
      moreover have "i + 1 \<le> length ks" "length ks < length (ks @ [?c])" using il by simp_all
      ultimately have "ahead ns (i + 1) (ks @ [?c])" unfolding ahead_def using e n by blast
      then show ?thesis using True il by simp
    next
      case small: False
      have "k \<noteq> i" using small cc n by auto
      then have "i + 1 \<le> k" using k(1) by simp
      moreover have "k < length (ks @ [?c])" using k(2) by simp
      moreover have "(ks @ [?c]) ! k = ks ! k" using k(2) by (simp add: nth_append)
      moreover have "\<forall>s\<in>set (ks @ [?c]). count s \<le> count (ks ! k)" using k(4) small by auto
      ultimately have "ahead ns (i + 1) (ks @ [?c])" unfolding ahead_def using e n k(3) by metis
      then show ?thesis using True il by simp
    qed
  next
    case False
    have "k \<noteq> i"
    proof
      assume "k = i"
      then have "?c \<in> set ks" using False tr k(3) by simp
      then have "count ?c \<le> count (ks ! k)" using k(4) by simp
      then show False using \<open>k = i\<close> cc n by simp
    qed
    then have "i + 1 \<le> k" using k(1) by simp
    then have "ahead ns (i + 1) ks" unfolding ahead_def using e n k by blast
    then show ?thesis using False il by auto
  qed
qed

lemma subsume_not_ahead:
  assumes "subsume ns i ks = Some ks'"
  shows "\<not> ahead ns i ks"
proof (rule subsume.raw_induct [OF _ assms], goal_cases)
  case (1 f ns i ks ks')
  note IH = 1(1) and body = 1(2)
  show ?case
  proof
    assume a: "ahead ns i ks"
    let ?ks = "if triggers ns (ks ! i) \<and> candidate ns (ks ! i) \<notin> set ks
               then ks @ [candidate ns (ks ! i)] else ks"
    from ahead_step [OF a] have il: "i < length ks" and nx: "ahead ns (i + 1) ?ks" by simp_all
    have "f ns (i + 1) ?ks = Some ks'"
      using body il by (auto simp add: Let_def triggers_def candidate_def split: if_splits)
    then have "\<not> ahead ns (i + 1) ?ks" by (rule IH)
    then show False using nx by simp
  qed
qed

lemma subsume_diverges: "ahead ns i ks \<Longrightarrow> subsume ns i ks = None"
  using subsume_not_ahead by (cases "subsume ns i ks") auto

lemma add_knowledge_eq:
  "add_knowledge a cell cnt =
     map_option (\<lambda>ks. (scanned a cell cnt)\<lparr>knowledge := ks\<rparr>)
       (subsume (scanned_sentence a cell cnt) 0 (knowledge (scanned a cell cnt)))"
  by (simp add: add_knowledge_def Let_def scanned_def scanned_sentence_def)

lemma shape_new_set:
  assumes "shape ns 0 ks ks'"
  shows "\<exists>new. ks' = ks @ new \<and> distinct new \<and> set new \<inter> set ks = {} \<and>
           set new = candidate ns ` {s \<in> set ks'. triggers ns s} - set ks"
proof -
  from assms obtain new where n: "ks' = ks @ new" "distinct new" "set new \<inter> set ks = {}"
    "\<forall>x\<in>set new. \<exists>s\<in>set ks'. triggers ns s \<and> x = candidate ns s"
    and all: "\<forall>k. k < length ks' \<longrightarrow> triggers ns (ks' ! k) \<longrightarrow> candidate ns (ks' ! k) \<in> set ks'"
    unfolding shape_def by auto
  have "candidate ns s \<in> set ks'" if "s \<in> set ks'" "triggers ns s" for s
    using that all by (auto simp add: in_set_conv_nth)
  then have "candidate ns ` {s \<in> set ks'. triggers ns s} - set ks \<subseteq> set new"
    using n(1) by auto
  moreover have "set new \<subseteq> candidate ns ` {s \<in> set ks'. triggers ns s} - set ks"
    using n(3,4) by auto
  ultimately show ?thesis using n(1,2,3) by blast
qed

subsection \<open>The games that lead to the agents\<close>

text \<open>The calls that lead to the agents defined above, run by the code equations.\<close>

lemma run_centre: "add_knowledge (init_ai 3 3) (1, 1) 1 = Some centre_opened"
  by code_simp


lemma run_strip:
  "ai_run [Add_knowledge (0, 0) 1, Add_knowledge (0, 3) 1] (init_ai 1 5) = Some strip_opened"
  by code_simp

lemma run_overcounted: "add_knowledge centre_opened (0, 1) 3 = Some overcounted"
  by code_simp

lemma tight_iff:
  "tight ns i ks ks' \<longleftrightarrow>
     take (length ks) ks' = ks \<and>
     (\<forall>j. length ks \<le> j \<and> j < length ks' \<longrightarrow>
        (\<exists>k. i \<le> k \<and> k < j \<and> triggers ns (ks' ! k) \<and> ks' ! j = candidate ns (ks' ! k)))"
  by (rule tight_def)

lemma tight_stop: "tight ns i ks ks"
  by (auto simp add: tight_iff)

lemma tight_skip:
  assumes "tight ns (i + 1) ks ks'"
  shows "tight ns i ks ks'"
proof -
  have "\<exists>k. i \<le> k \<and> k < j \<and> triggers ns (ks' ! k) \<and> ks' ! j = candidate ns (ks' ! k)"
    if "length ks \<le> j" "j < length ks'" for j
  proof -
    from assms that obtain k where "i + 1 \<le> k" "k < j" "triggers ns (ks' ! k)"
      "ks' ! j = candidate ns (ks' ! k)" unfolding tight_iff by blast
    then show ?thesis by (intro exI [of _ k]) simp
  qed
  then show ?thesis using assms unfolding tight_iff by blast
qed

lemma tight_append:
  assumes il: "i < length ks" and tr: "triggers ns (ks ! i)"
    and t: "tight ns (i + 1) (ks @ [candidate ns (ks ! i)]) ks'"
  shows "tight ns i ks ks'"
proof -
  let ?c = "candidate ns (ks ! i)"
  from t have pre: "take (length (ks @ [?c])) ks' = ks @ [?c]"
    and later: "\<forall>j. length (ks @ [?c]) \<le> j \<and> j < length ks' \<longrightarrow>
        (\<exists>k. i + 1 \<le> k \<and> k < j \<and> triggers ns (ks' ! k) \<and> ks' ! j = candidate ns (ks' ! k))"
    unfolding tight_iff by blast+
  have app: "ks' = (ks @ [?c]) @ drop (length (ks @ [?c])) ks'"
    using pre by (metis append_take_drop_id)
  have p: "take (length ks) ks' = ks" by (subst app) simp
  have here: "ks' ! i = ks ! i" using il by (subst app) (simp add: nth_append)
  have at: "ks' ! length ks = ?c" by (subst app) (simp add: nth_append)
  have "\<exists>k. i \<le> k \<and> k < j \<and> triggers ns (ks' ! k) \<and> ks' ! j = candidate ns (ks' ! k)"
    if j: "length ks \<le> j" "j < length ks'" for j
  proof (cases "j = length ks")
    case True
    then show ?thesis using il tr here at by auto
  next
    case False
    then have "length (ks @ [?c]) \<le> j" using j(1) by simp
    then obtain k where "i + 1 \<le> k" "k < j" "triggers ns (ks' ! k)"
      "ks' ! j = candidate ns (ks' ! k)" using later j(2) by blast
    then show ?thesis by (intro exI [of _ k]) simp
  qed
  then show ?thesis unfolding tight_iff using p by blast
qed

lemma subsume_tight:
  assumes "subsume ns i ks = Some ks'"
  shows "tight ns i ks ks'"
proof (rule subsume.raw_induct [OF _ assms], goal_cases)
  case (1 f ns i ks ks')
  note IH = 1(1) and body = 1(2)
  show ?case
  proof (cases "i < length ks")
    case False
    then show ?thesis using body tight_stop by simp
  next
    case True
    show ?thesis
    proof (cases "triggers ns (ks ! i) \<and> candidate ns (ks ! i) \<notin> set ks")
      case yes: True
      then have "f ns (i + 1) (ks @ [candidate ns (ks ! i)]) = Some ks'"
        using body True by (simp add: Let_def triggers_def candidate_def)
      then have "tight ns (i + 1) (ks @ [candidate ns (ks ! i)]) ks'" by (rule IH)
      then show ?thesis using tight_append [OF True] yes by simp
    next
      case no: False
      then have "f ns (i + 1) ks = Some ks'"
        using body True by (auto simp add: Let_def triggers_def candidate_def split: if_splits)
      then have "tight ns (i + 1) ks ks'" by (rule IH)
      then show ?thesis by (rule tight_skip)
    qed
  qed
qed

lemma shape_tight_new:
  assumes "shape ns 0 ks ks'" and "tight ns 0 ks ks'"
  shows "\<exists>new. ks' = ks @ new \<and> distinct new \<and> set new \<inter> set ks = {} \<and>
           set new = candidate ns ` {s \<in> set ks'. triggers ns s} - set ks \<and>
           (\<forall>j<length new. \<exists>k<length ks + j.
               triggers ns (ks' ! k) \<and> new ! j = candidate ns (ks' ! k))"
proof -
  from shape_new_set [OF assms(1)] obtain new where n: "ks' = ks @ new" "distinct new"
    "set new \<inter> set ks = {}" "set new = candidate ns ` {s \<in> set ks'. triggers ns s} - set ks"
    by blast
  have "\<exists>k<length ks + j. triggers ns (ks' ! k) \<and> new ! j = candidate ns (ks' ! k)"
    if "j < length new" for j
  proof -
    have "length ks \<le> length ks + j" "length ks + j < length ks'" using that n(1) by simp_all
    then obtain k where "k < length ks + j" "triggers ns (ks' ! k)"
      "ks' ! (length ks + j) = candidate ns (ks' ! k)"
      using assms(2) unfolding tight_iff by blast
    moreover have "ks' ! (length ks + j) = new ! j" using n(1) by (simp add: nth_append)
    ultimately show ?thesis by auto
  qed
  then show ?thesis using n by blast
qed

text \<open>
  A report that leaves \<open>new_sentence\<close> as \<open>{} = 0\<close> makes every sentence of positive count
  its own candidate, and the step appends nothing.
\<close>

lemma zero_report_appends_nothing:
  assumes r: "add_knowledge a cell cnt = Some a'"
    and z: "scanned_sentence a cell cnt = \<lparr>cells = {||}, count = 0\<rparr>"
  shows "a' = scanned a cell cnt"
proof -
  let ?ns = "scanned_sentence a cell cnt" and ?ks = "knowledge (scanned a cell cnt)"
  from r obtain ks' where s: "subsume ?ns 0 ?ks = Some ks'"
    and a': "a' = (scanned a cell cnt)\<lparr>knowledge := ks'\<rparr>"
    by (auto simp add: add_knowledge_eq)
  from shape_tight_new [OF subsume_shape [OF s] subsume_tight [OF s]]
  obtain new where n: "ks' = ?ks @ new" "set new \<inter> set ?ks = {}"
    "\<forall>j<length new. \<exists>k<length ?ks + j. triggers ?ns (ks' ! k) \<and> new ! j = candidate ?ns (ks' ! k)"
    by blast
  have same: "candidate ?ns s = s" for s by (simp add: z candidate_def)
  have "new = []"
  proof (rule ccontr)
    assume "new \<noteq> []"
    then have l: "0 < length new" by simp
    with n(3) obtain k where k: "k < length ?ks" "new ! 0 = candidate ?ns (ks' ! k)" by auto
    have "ks' ! k = ?ks ! k" using k(1) n(1) by (simp add: nth_append)
    then have "new ! 0 \<in> set ?ks" using k same by simp
    moreover have "new ! 0 \<in> set new" using l by simp
    ultimately show False using n(2) by auto
  qed
  then show ?thesis using a' n(1) by simp
qed



subsection \<open>The safe move\<close>

lemma length_sorted_list_of_fset: "length (sorted_list_of_fset S) = fcard S"
  using distinct_card [OF distinct_sorted_list_of_fset, of S] by (simp add: fcard.rep_eq)

text \<open>
  C8. Whatever the draw, \<open>make_safe_move\<close> hands the agent back as it was, so
  \<open>moves_made\<close>, \<open>mines\<close>, \<open>safes\<close> and \<open>knowledge\<close> are unchanged; it returns \<open>None\<close>
  when \<open>safes - moves_made\<close> is empty, and a cell of that set when it is not.
\<close>

theorem make_safe_move_frame:
  "snd (make_safe_move rnd a) = a
   \<and> (if safes a |-| moves_made a = {||} then fst (make_safe_move rnd a) = None
      else \<exists>c. fst (make_safe_move rnd a) = Some c \<and> c |\<in>| safes a |-| moves_made a)"
proof (cases "safes a |-| moves_made a = {||}")
  case True
  then show ?thesis by (simp add: make_safe_move_def)
next
  case False
  let ?m = "safes a |-| moves_made a"
  have "0 < fcard ?m" using False by (simp add: fcard_0_eq [symmetric] del: fcard_0_eq)
  then have "rnd mod fcard ?m < length (sorted_list_of_fset ?m)"
    by (simp add: length_sorted_list_of_fset)
  then have "sorted_list_of_fset ?m ! (rnd mod fcard ?m) \<in> set (sorted_list_of_fset ?m)"
    by (rule nth_mem)
  then have "sorted_list_of_fset ?m ! (rnd mod fcard ?m) |\<in>| ?m"
    by simp
  then show ?thesis using False by (simp add: make_safe_move_def Let_def)
qed

theorem make_safe_move_frame_witness:
  "make_safe_move 7 edge_opened = (None, edge_opened)
   \<and> snd (make_safe_move 7 (ai_mark_safe (2, 0) edge_opened)) = ai_mark_safe (2, 0) edge_opened
   \<and> (\<exists>c. fst (make_safe_move 7 (ai_mark_safe (2, 0) edge_opened)) = Some c
          \<and> c |\<in>| safes (ai_mark_safe (2, 0) edge_opened)
                  |-| moves_made (ai_mark_safe (2, 0) edge_opened))"
proof -
  have e: "safes edge_opened |-| moves_made edge_opened = {||}"
    by (simp add: edge_opened_def)
  have n: "safes (ai_mark_safe (2, 0) edge_opened) |-| moves_made (ai_mark_safe (2, 0) edge_opened) \<noteq> {||}"
    by (simp add: edge_opened_def ai_mark_safe_def)
  show ?thesis
    using make_safe_move_frame [of 7 edge_opened]
      make_safe_move_frame [of 7 "ai_mark_safe (2, 0) edge_opened"] e n
    by (simp add: prod_eq_iff)
qed

subsection \<open>Two games on a 3 by 3 board\<close>

text \<open>
  C9, amended. On a 3 by 3 board the cell \<open>(2, 2)\<close> is a corner: of the eight coordinates
  around it only \<open>(1, 1)\<close>, \<open>(1, 2)\<close> and \<open>(2, 1)\<close> are on the board. A single
  \<open>add_knowledge((2, 2), 0)\<close> on a fresh agent returns with these three and \<open>(2, 2)\<close>
  itself as the known safes.
\<close>

theorem corner_gets_three:
  "map_option safes (add_knowledge (init_ai 3 3) (2, 2) 0)
     = Some {|(2, 2), (1, 1), (1, 2), (2, 1)|}
   \<and> ffilter (in_bounds (init_ai 3 3)) (neighbours (2, 2)) = {|(1, 1), (1, 2), (2, 1)|}"
  by code_simp

text \<open>
  C9, as stated, fails: \<open>(3, 3)\<close> is one of the eight neighbours of \<open>(2, 2)\<close> and is not
  in \<open>safes\<close> when the call returns.
\<close>

theorem corner_not_eight:
  "map_option safes (add_knowledge (init_ai 3 3) (2, 2) 0)
     = Some {|(2, 2), (1, 1), (1, 2), (2, 1)|}
   \<and> (3, 3) |\<in>| neighbours (2, 2) \<and> (3, 3) |\<notin>| {|(2, 2), (1, 1), (1, 2), (2, 1) :: cell|}"
  by code_simp

text \<open>
  C1. The code does not reach the saturation that the claim states. On a 1 by 4 board
  whose only mine is at \<open>(0, 0)\<close>, \<open>add_knowledge((0, 1), 1)\<close> leaves the sentence
  \<open>{(0, 0), (0, 2)} = 1\<close>. \<open>add_knowledge((0, 3), 0)\<close> appends \<open>{(0, 2)} = 0\<close>; the scan of
  step 4 passes the first sentence, which tells nothing yet, then marks \<open>(0, 2)\<close> safe
  from the second, which turns the first into \<open>{(0, 0)} = 1\<close>, and ends. The call
  returns with a sentence whose \<open>known_mines\<close> is \<open>{(0, 0)}\<close> and with no known mine.

  On a 3 by 3 board with the same mine, \<open>add_knowledge((1, 1), 1)\<close> and
  \<open>add_knowledge((0, 1), 1)\<close> return with the sentence \<open>{(2, 0), (2, 1), (2, 2)} = 0\<close>,
  which step 5 derived when the scan was over: its \<open>known_safes\<close> is not empty and none
  of its cells is in \<open>safes\<close>.
\<close>

theorem unsaturated_after_return:
  "ai_run [Add_knowledge (0, 1) 1, Add_knowledge (0, 3) 0] (init_ai 1 4) =
     Some \<lparr>height = 1, width = 4, moves_made = {|(0, 1), (0, 3)|}, mines = {||},
            safes = {|(0, 1), (0, 2), (0, 3)|},
            knowledge = [\<lparr>cells = {|(0, 0)|}, count = 1\<rparr>, \<lparr>cells = {||}, count = 0\<rparr>]\<rparr>
   \<and> fst (known_mines \<lparr>cells = {|(0, 0)|}, count = 1\<rparr>) = {|(0, 0)|}
   \<and> ai_run [Add_knowledge (1, 1) 1, Add_knowledge (0, 1) 1] (init_ai 3 3) = Some edge_opened
   \<and> knowledge edge_opened ! 2 = \<lparr>cells = {|(2, 0), (2, 1), (2, 2)|}, count = 0\<rparr>
   \<and> fst (known_safes (knowledge edge_opened ! 2)) = {|(2, 0), (2, 1), (2, 2)|}
   \<and> safes edge_opened = {|(0, 1), (1, 1)|}"
  by code_simp

subsection \<open>Sequences of calls\<close>

lemma subsume_preserves_aux:
  assumes "subsume ns i ks = Some ks'"
  shows "(\<forall>s. Q s \<longrightarrow> triggers ns s \<longrightarrow> Q (candidate ns s)) \<longrightarrow> list_all Q ks \<longrightarrow> list_all Q ks'"
proof (rule subsume.raw_induct [OF _ assms], goal_cases)
  case (1 f ns i ks ks')
  note IH = 1(1) and body = 1(2)
  show ?case
  proof (intro impI)
    assume step: "\<forall>s. Q s \<longrightarrow> triggers ns s \<longrightarrow> Q (candidate ns s)" and all: "list_all Q ks"
    show "list_all Q ks'"
    proof (cases "i < length ks")
      case False
      then show ?thesis using body all by simp
    next
      case True
      then have here: "Q (ks ! i)" using all by (simp add: list_all_length)
      show ?thesis
      proof (cases "triggers ns (ks ! i) \<and> candidate ns (ks ! i) \<notin> set ks")
        case yes: True
        then have "f ns (i + 1) (ks @ [candidate ns (ks ! i)]) = Some ks'"
          using body True by (simp add: Let_def triggers_def candidate_def)
        moreover have "list_all Q (ks @ [candidate ns (ks ! i)])"
          using all here step yes by simp
        ultimately show ?thesis using IH step by blast
      next
        case no: False
        then have "f ns (i + 1) ks = Some ks'"
          using body True by (auto simp add: Let_def triggers_def candidate_def split: if_splits)
        then show ?thesis using IH step all by blast
      qed
    qed
  qed
qed

lemma subsume_preserves:
  assumes "subsume ns i ks = Some ks'"
    and "\<And>s. Q s \<Longrightarrow> triggers ns s \<Longrightarrow> Q (candidate ns s)"
    and "list_all Q ks"
  shows "list_all Q ks'"
  using subsume_preserves_aux [OF assms(1), of Q] assms(2,3) by blast

lemma scanned_grows: "grows a (scanned a cell cnt)"
  unfolding scanned_def by (rule grows_trans [OF observe_grows infer_grows])

lemma add_knowledge_grows:
  assumes "add_knowledge a cell cnt = Some a'"
  shows "grows a a'"
proof -
  from assms obtain ks' where "a' = (scanned a cell cnt)\<lparr>knowledge := ks'\<rparr>"
    by (auto simp add: add_knowledge_eq)
  then show ?thesis using scanned_grows [of a cell cnt] by (simp add: grows_def)
qed

lemma scanned_tidy: "tidy a \<Longrightarrow> cell |\<notin>| mines a \<Longrightarrow> tidy (scanned a cell cnt)"
  unfolding scanned_def by (simp add: infer_tidy observe_tidy)

lemma add_knowledge_tidy:
  assumes "add_knowledge a cell cnt = Some a'" and "tidy a" and "cell |\<notin>| mines a"
  shows "tidy a'"
proof -
  let ?a = "scanned a cell cnt"
  from assms(1) obtain ks' where
    s: "subsume (scanned_sentence a cell cnt) 0 (knowledge ?a) = Some ks'"
    and a': "a' = ?a\<lparr>knowledge := ks'\<rparr>"
    by (auto simp add: add_knowledge_eq)
  have t: "tidy ?a" using assms(2,3) by (rule scanned_tidy)
  let ?Q = "\<lambda>s. cells s |\<inter>| (mines ?a |\<union>| safes ?a) = {||}"
  have "list_all ?Q ks'"
  proof (rule subsume_preserves [OF s])
    show "list_all ?Q (knowledge ?a)" using t by (simp add: tidy_def)
    show "?Q (candidate (scanned_sentence a cell cnt) s)" if "?Q s" for s
      using that by (auto simp add: candidate_def)
  qed
  then show ?thesis using t a' by (simp add: tidy_def)
qed

lemma ai_step_grows: "ai_step c a = Some a' \<Longrightarrow> grows a a'"
proof (cases c)
  case (Add_knowledge cell cnt)
  then show "ai_step c a = Some a' \<Longrightarrow> grows a a'" by (simp add: add_knowledge_grows)
next
  case (Mark_mine cell)
  then show "ai_step c a = Some a' \<Longrightarrow> grows a a'"
    by (auto simp add: grows_def ai_mark_mine_def)
next
  case (Mark_safe cell)
  then show "ai_step c a = Some a' \<Longrightarrow> grows a a'"
    by (auto simp add: grows_def ai_mark_safe_def)
qed

lemma ai_step_tidy: "ai_step c a = Some a' \<Longrightarrow> tidy a \<Longrightarrow> polite c a \<Longrightarrow> tidy a'"
  by (cases c) (auto simp add: add_knowledge_tidy ai_mark_mine_tidy ai_mark_safe_tidy)

text \<open>
  C6, amended. Over every sequence of \<open>add_knowledge\<close>, \<open>mark_mine\<close> and \<open>mark_safe\<close>
  calls that return, \<open>mines\<close>, \<open>safes\<close> and \<open>moves_made\<close> lose no element. No cell is in
  both \<open>mines\<close> and \<open>safes\<close> after the sequence when the agent was tidy before it (a
  fresh agent is) and every call was polite: no \<open>mark_safe\<close> or \<open>add_knowledge\<close> on a
  cell that is a known mine at that moment, no \<open>mark_mine\<close> on a known safe.
\<close>

theorem sets_grow_and_stay_apart:
  "ai_run cs a = Some a' \<Longrightarrow>
     grows a a' \<and> (tidy a \<and> all_polite cs a \<longrightarrow> tidy a' \<and> mines a' |\<inter>| safes a' = {||})"
proof (induction cs arbitrary: a)
  case Nil
  then show ?case by (auto simp add: grows_refl tidy_def)
next
  case (Cons c cs)
  from Cons.prems obtain b where b: "ai_step c a = Some b" and r: "ai_run cs b = Some a'"
    by (auto split: option.splits)
  have g: "grows a a'" using grows_trans [OF ai_step_grows [OF b]] Cons.IH [OF r] by simp
  have "tidy a' \<and> mines a' |\<inter>| safes a' = {||}" if "tidy a" "all_polite (c # cs) a"
  proof -
    have "tidy b" using ai_step_tidy [OF b] that by simp
    moreover have "all_polite cs b" using that(2) b by simp
    ultimately show ?thesis using Cons.IH [OF r] by simp
  qed
  then show ?case using g by simp
qed

theorem sets_grow_and_stay_apart_witness:
  "ai_run [Add_knowledge (0, 0) 1, Add_knowledge (0, 3) 1] (init_ai 1 5) = Some strip_opened
   \<and> grows (init_ai 1 5) strip_opened
   \<and> tidy strip_opened
   \<and> mines strip_opened = {|(0, 1)|} \<and> safes strip_opened = {|(0, 0), (0, 3)|}
   \<and> mines strip_opened |\<inter>| safes strip_opened = {||}"
proof -
  have t: "tidy (init_ai 1 5)" by (simp add: tidy_def init_ai_def)
  have p: "all_polite [Add_knowledge (0, 0) 1, Add_knowledge (0, 3) 1] (init_ai 1 5)"
    by code_simp
  show ?thesis
    using sets_grow_and_stay_apart [OF run_strip] t p run_strip
    by (simp add: strip_opened_def)
qed

text \<open>
  C6, as stated, fails on its second half: \<open>mark_mine((0, 0))\<close> followed by
  \<open>mark_safe((0, 0))\<close> leaves \<open>(0, 0)\<close> in both sets; and so do, with \<open>add_knowledge\<close>
  alone, the reports \<open>((0, 0), 3)\<close> and \<open>((0, 1), 0)\<close> on a 3 by 3 board, the second of
  which opens a cell that the first has made a known mine.
\<close>

theorem mine_and_safe:
  "map_option mines (ai_run [Mark_mine (0, 0), Mark_safe (0, 0)] (init_ai 3 3))
     = Some {|(0, 0)|}
   \<and> map_option safes (ai_run [Mark_mine (0, 0), Mark_safe (0, 0)] (init_ai 3 3))
     = Some {|(0, 0)|}
   \<and> map_option mines (ai_run [Add_knowledge (0, 0) 3, Add_knowledge (0, 1) 0] (init_ai 3 3))
     = Some {|(0, 1), (1, 0), (1, 1)|}
   \<and> map_option safes (ai_run [Add_knowledge (0, 0) 3, Add_knowledge (0, 1) 0] (init_ai 3 3))
     = Some {|(0, 0), (0, 1)|}"
  by code_simp


subsection \<open>The sentence of an observation\<close>

text \<open>
  C4, amended. The sentence that \<open>add_knowledge(cell, count)\<close> appends in step 3 has as
  cells the neighbours of \<open>cell\<close> that are on the board and neither in \<open>safes\<close> nor in
  \<open>mines\<close>, so no coordinate off the board is among them; its count is the given count
  less the number of neighbours of \<open>cell\<close>, on the board or not, that are in \<open>mines\<close>
  and not in \<open>safes\<close>. When \<open>mines\<close> and \<open>safes\<close> are disjoint and every known mine is on
  the board, these are the neighbours on the board that are in \<open>mines\<close>. The sentences
  that were in \<open>knowledge\<close> have lost \<open>cell\<close>.
\<close>

theorem observed_sentence:
  "knowledge (observe a cell cnt) = map (mark_safe cell) (knowledge a) @
     [\<lparr>cells = ffilter (\<lambda>u. in_bounds a u \<and> u |\<notin>| safes a \<and> u |\<notin>| mines a) (neighbours cell),
       count = cnt - int (fcard (ffilter (\<lambda>u. u |\<in>| mines a \<and> u |\<notin>| safes a)
                                          (neighbours cell)))\<rparr>]
   \<and> (mines a |\<inter>| safes a = {||} \<and> ffilter (in_bounds a) (mines a) = mines a \<longrightarrow>
        ffilter (\<lambda>u. u |\<in>| mines a \<and> u |\<notin>| safes a) (neighbours cell)
          = ffilter (\<lambda>u. in_bounds a u \<and> u |\<in>| mines a) (neighbours cell))
   \<and> ffilter (in_bounds a) (cells (last (knowledge (observe a cell cnt))))
       = cells (last (knowledge (observe a cell cnt)))"
proof -
  have a: "(\<lambda>u. u |\<notin>| safes a \<and> u |\<notin>| mines a \<and> in_bounds a u)
         = (\<lambda>u. in_bounds a u \<and> u |\<notin>| safes a \<and> u |\<notin>| mines a)" by auto
  have b: "(\<lambda>u. u |\<notin>| safes a \<and> u |\<in>| mines a) = (\<lambda>u. u |\<in>| mines a \<and> u |\<notin>| safes a)"
    by auto
  have "ffilter (\<lambda>u. u |\<in>| mines a \<and> u |\<notin>| safes a) (neighbours cell)
          = ffilter (\<lambda>u. in_bounds a u \<and> u |\<in>| mines a) (neighbours cell)"
    if "mines a |\<inter>| safes a = {||}" "ffilter (in_bounds a) (mines a) = mines a"
  proof -
    have "in_bounds a u \<and> u |\<notin>| safes a" if "u |\<in>| mines a" for u
      using that \<open>mines a |\<inter>| safes a = {||}\<close> \<open>ffilter (in_bounds a) (mines a) = mines a\<close>
      by (metis ffmember_filter fempty_iff finterI)
    then show ?thesis by auto
  qed
  then show ?thesis by (auto simp add: observe_eq a b)
qed

theorem observed_sentence_witness:
  "knowledge (observe strip_opened (0, 2) 1) =
     [\<lparr>cells = {||}, count = 0\<rparr>, \<lparr>cells = {|(0, 4)|}, count = 1\<rparr>, \<lparr>cells = {||}, count = 0\<rparr>]
   \<and> mines strip_opened |\<inter>| safes strip_opened = {||}
   \<and> ffilter (in_bounds strip_opened) (mines strip_opened) = mines strip_opened
   \<and> ffilter (\<lambda>u. u |\<in>| mines strip_opened \<and> u |\<notin>| safes strip_opened) (neighbours (0, 2))
       = ffilter (\<lambda>u. in_bounds strip_opened u \<and> u |\<in>| mines strip_opened) (neighbours (0, 2))"
proof -
  have 4: "mines strip_opened |\<inter>| safes strip_opened = {||}" by code_simp
  have 5: "ffilter (in_bounds strip_opened) (mines strip_opened) = mines strip_opened"
    by code_simp
  have 1: "ffilter (\<lambda>u. in_bounds strip_opened u \<and> u |\<notin>| safes strip_opened \<and> u |\<notin>| mines strip_opened)
            (neighbours (0, 2)) = {||}"
    by code_simp
  have 2: "fcard (ffilter (\<lambda>u. u |\<in>| mines strip_opened \<and> u |\<notin>| safes strip_opened)
            (neighbours (0, 2))) = 1"
    by code_simp
  have 3: "map (mark_safe (0, 2)) (knowledge strip_opened) =
            [\<lparr>cells = {||}, count = 0\<rparr>, \<lparr>cells = {|(0, 4)|}, count = 1\<rparr>]"
    by code_simp
  show ?thesis using observed_sentence [of strip_opened "(0, 2)" 1] 4 5 by (simp add: 1 2 3)
qed

text \<open>
  C4, as stated, fails on the count. After \<open>mark_mine((-1, 0))\<close> on a fresh 3 by 3 agent,
  \<open>add_knowledge((0, 0), 1)\<close> builds a sentence of count 0: the mine off the board is
  counted, since the test for a known mine comes before the test of the bounds; the
  claim gives 1. After \<open>add_knowledge((0, 0), 3)\<close> and \<open>add_knowledge((0, 1), 0)\<close> the cell
  \<open>(0, 1)\<close> is a known mine and a known safe; \<open>add_knowledge((0, 2), 2)\<close> then skips it
  as a safe and builds a sentence of count 1, where the claim gives 0.
\<close>

theorem count_not_in_bounds_mines:
  "last (knowledge (observe (ai_mark_mine (- 1, 0) (init_ai 3 3)) (0, 0) 1))
     = \<lparr>cells = {|(0, 1), (1, 0), (1, 1)|}, count = 0\<rparr>
   \<and> 1 - int (fcard (ffilter (\<lambda>u. in_bounds (ai_mark_mine (- 1, 0) (init_ai 3 3)) u
                                   \<and> u |\<in>| mines (ai_mark_mine (- 1, 0) (init_ai 3 3)))
                        (neighbours (0, 0)))) = 1
   \<and> ai_run [Add_knowledge (0, 0) 3, Add_knowledge (0, 1) 0] (init_ai 3 3) = Some muddled
   \<and> last (knowledge (observe muddled (0, 2) 2)) = \<lparr>cells = {|(1, 2)|}, count = 1\<rparr>
   \<and> 2 - int (fcard (ffilter (\<lambda>u. in_bounds muddled u \<and> u |\<in>| mines muddled)
                        (neighbours (0, 2)))) = 0"
  by code_simp


subsection \<open>Counts out of range\<close>

text \<open>
  The source has no \<open>raise\<close>, and \<open>set.remove\<close>, which could raise, is behind a
  membership test: no call of the engine ends in an exception, which is why the model
  has no error value. A report \<open>((0, 1), 3)\<close> after \<open>((1, 1), 1)\<close> on a 3 by 3 board
  makes step 5 derive a sentence of count -2.
\<close>

lemma scanned_sentence_overcounted:
  "scanned_sentence centre_opened (0, 1) 3 =
     \<lparr>cells = {|(0, 0), (0, 2), (1, 0), (1, 2)|}, count = 3\<rparr>"
  by code_simp

text \<open>
  C5, as stated, fails. \<open>mark_mine((2, 0))\<close> on the agent returns normally and leaves
  the sentence \<open>{(2, 1), (2, 2)} = -1\<close> in \<open>knowledge\<close>; \<open>add_knowledge((0, 1), 3)\<close>
  returns normally with the derived sentence \<open>{(2, 0), (2, 1), (2, 2)} = -2\<close> appended.
\<close>

theorem faults_not_reported:
  "ai_step (Mark_mine (2, 0)) edge_opened = Some (ai_mark_mine (2, 0) edge_opened)
   \<and> knowledge (ai_mark_mine (2, 0) edge_opened) ! 2 = \<lparr>cells = {|(2, 1), (2, 2)|}, count = - 1\<rparr>
   \<and> add_knowledge centre_opened (0, 1) 3 = Some overcounted
   \<and> knowledge overcounted ! 2 = \<lparr>cells = {|(2, 0), (2, 1), (2, 2)|}, count = - 2\<rparr>"
  by code_simp

text \<open>
  C5, amended. The engine checks no count and reports no fault. \<open>mark_mine\<close> and
  \<open>mark_safe\<close> of the agent put into \<open>knowledge\<close>, at each index, the sentence as
  \<open>Sentence.mark_mine\<close> or \<open>Sentence.mark_safe\<close> leaves it, and that sentence violates
  \<open>0 <= count <= len(cells)\<close> whenever the call was not harmless for a sentence that
  satisfied it. When \<open>add_knowledge\<close> returns, the candidate of every sentence that
  triggers the subsumption step and has a smaller count than \<open>new_sentence\<close> is in
  \<open>knowledge\<close>, with its negative count.
\<close>

theorem faults_kept:
  "(\<forall>i<length (knowledge a).
       knowledge (ai_mark_mine c a) ! i = mark_mine c (knowledge a ! i)
     \<and> knowledge (ai_mark_safe c a) ! i = mark_safe c (knowledge a ! i))
   \<and> (sentence_ok s \<and> \<not> harmless call s \<longrightarrow> \<not> sentence_ok (do_call call s))
   \<and> (add_knowledge b cell cnt = Some b' \<longrightarrow>
        (\<forall>s\<in>set (knowledge b').
           triggers (scanned_sentence b cell cnt) s \<and> count s < count (scanned_sentence b cell cnt)
           \<longrightarrow> candidate (scanned_sentence b cell cnt) s \<in> set (knowledge b')
               \<and> count (candidate (scanned_sentence b cell cnt) s) < 0))"
proof -
  have "candidate (scanned_sentence b cell cnt) s \<in> set (knowledge b')"
    if r: "add_knowledge b cell cnt = Some b'" and s: "s \<in> set (knowledge b')"
      and t: "triggers (scanned_sentence b cell cnt) s" for s
  proof -
    from r obtain ks' where
      k: "subsume (scanned_sentence b cell cnt) 0 (knowledge (scanned b cell cnt)) = Some ks'"
      and b': "b' = (scanned b cell cnt)\<lparr>knowledge := ks'\<rparr>"
      by (auto simp add: add_knowledge_eq)
    from s b' obtain j where j: "j < length ks'" "ks' ! j = s"
      by (auto simp add: in_set_conv_nth)
    from subsume_shape [OF k] j t have "candidate (scanned_sentence b cell cnt) s \<in> set ks'"
      unfolding shape_def by auto
    then show ?thesis using b' by simp
  qed
  moreover have "count (candidate ns s) < 0" if "count s < count ns" for ns s :: sentence
    using that by (simp add: candidate_def)
  ultimately show ?thesis
    by (auto simp add: ai_mark_mine_def ai_mark_safe_def do_call_ok_iff)
qed

theorem faults_kept_witness:
  "knowledge (ai_mark_mine (2, 0) edge_opened) ! 2 = \<lparr>cells = {|(2, 1), (2, 2)|}, count = - 1\<rparr>
   \<and> sentence_ok \<lparr>cells = {|(2, 0), (2, 1), (2, 2)|}, count = 0\<rparr>
   \<and> \<not> sentence_ok \<lparr>cells = {|(2, 1), (2, 2)|}, count = - 1\<rparr>
   \<and> add_knowledge centre_opened (0, 1) 3 = Some overcounted
   \<and> \<lparr>cells = {|(2, 0), (2, 1), (2, 2)|}, count = - 2\<rparr> \<in> set (knowledge overcounted)"
proof -
  let ?s = "\<lparr>cells = {|(2, 0), (2, 1), (2, 2)|}, count = 0\<rparr>"
  let ?t = "\<lparr>cells = {|(0, 0), (0, 2), (1, 0), (1, 2), (2, 0), (2, 1), (2, 2)|}, count = 1\<rparr>"
  have 1: "knowledge edge_opened ! 2 = ?s" "2 < length (knowledge edge_opened)"
    by (simp_all add: edge_opened_def)
  have 2: "mark_mine (2, 0) ?s = \<lparr>cells = {|(2, 1), (2, 2)|}, count = - 1\<rparr>" by code_simp
  have 3: "sentence_ok ?s" by code_simp
  have 4: "\<not> harmless (S_mark_mine (2, 0)) ?s" by code_simp
  have 5: "?t \<in> set (knowledge overcounted)" by (simp add: overcounted_def)
  have 6: "triggers (scanned_sentence centre_opened (0, 1) 3) ?t" 
    unfolding scanned_sentence_overcounted by code_simp
  have 7: "candidate (scanned_sentence centre_opened (0, 1) 3) ?t
            = \<lparr>cells = {|(2, 0), (2, 1), (2, 2)|}, count = - 2\<rparr>"
    unfolding scanned_sentence_overcounted by code_simp
  have 8: "count ?t < count (scanned_sentence centre_opened (0, 1) 3)"
    unfolding scanned_sentence_overcounted by simp
  from faults_kept [where a = edge_opened and c = "(2, 0)" and s = ?s
      and call = "S_mark_mine (2, 0)" and b = centre_opened and cell = "(0, 1)" and cnt = 3
      and b' = overcounted]
  have a: "knowledge (ai_mark_mine (2, 0) edge_opened) ! 2 = mark_mine (2, 0) (knowledge edge_opened ! 2)"
    and b: "\<not> sentence_ok (do_call (S_mark_mine (2, 0)) ?s)"
    and c: "candidate (scanned_sentence centre_opened (0, 1) 3) ?t \<in> set (knowledge overcounted)"
    using 1 3 4 5 6 8 run_overcounted by blast+
  show ?thesis using a b c 1 2 3 7 run_overcounted by simp
qed

subsection \<open>Games on a board\<close>

lemma mines_of_iff:
  "u |\<in>| mines_of h w board \<longleftrightarrow>
     0 \<le> fst u \<and> fst u < h \<and> 0 \<le> snd u \<and> snd u < w \<and> board ! nat (fst u) ! nat (snd u)"
proof (cases u)
  case (Pair i j)
  have "(i, j) \<in> set (concat (map (\<lambda>r. map (\<lambda>c. (r, c)) [0..w - 1]) [0..h - 1]))
          \<longleftrightarrow> 0 \<le> i \<and> i < h \<and> 0 \<le> j \<and> j < w"
    by (auto simp add: image_iff)
  then show ?thesis using Pair by (auto simp add: mines_of_def fset_of_list_elem)
qed

lemma fold_nearby:
  fixes h w :: int and board :: "bool list list" and cell :: cell
  defines "f \<equiv> (\<lambda>u n. if u = cell then n
                else if 0 \<le> fst u \<and> fst u < h \<and> 0 \<le> snd u \<and> snd u < w
                  then (if board ! nat (fst u) ! nat (snd u) then n + 1 else n)
                  else n :: int)"
  shows "distinct xs \<Longrightarrow>
   fold f xs n
     = n + int (fcard (ffilter (\<lambda>u. u \<noteq> cell \<and> u |\<in>| mines_of h w board) (fset_of_list xs)))"
proof (induction xs arbitrary: n)
  case Nil
  have "ffilter (\<lambda>u. u \<noteq> cell \<and> u |\<in>| mines_of h w board) {||} = {||}" by auto
  then show ?case by (simp add: fcard_fempty)
next
  case (Cons x xs)
  let ?Q = "\<lambda>u. u \<noteq> cell \<and> u |\<in>| mines_of h w board"
  have nx: "x |\<notin>| fset_of_list xs" using Cons.prems by (simp add: fset_of_list_elem)
  have d: "distinct xs" using Cons.prems by simp
  have fQ: "ffilter ?Q (fset_of_list (x # xs)) =
          (if ?Q x then finsert x (ffilter ?Q (fset_of_list xs)) else ffilter ?Q (fset_of_list xs))"
    by auto
  have nQ: "x |\<notin>| ffilter ?Q (fset_of_list xs)" using nx by simp
  have st: "f x n = (if ?Q x then n + 1 else n)" by (simp add: f_def mines_of_iff)
  have "fold f (x # xs) n = fold f xs (f x n)" by simp
  also have "\<dots> = f x n + int (fcard (ffilter ?Q (fset_of_list xs)))" by (rule Cons.IH [OF d])
  also have "\<dots> = n + int (fcard (ffilter ?Q (fset_of_list (x # xs))))"
    unfolding fQ st by (simp add: fcard_finsert_disjoint [OF nQ])
  finally show ?case .
qed

lemma nearby_mines_count:
  "nearby_mines h w board cell = int (fcard (neighbours cell |\<inter>| mines_of h w board))"
proof -
  have "ffilter (\<lambda>u. u \<noteq> cell \<and> u |\<in>| mines_of h w board) (finsert cell (neighbours cell))
          = neighbours cell |\<inter>| mines_of h w board"
    using not_in_neighbours [of cell] by auto
  then show ?thesis
    unfolding nearby_mines_def by (simp add: fold_nearby [OF distinct_around] fset_of_list_around)
qed

lemma nearby_mines_truthful:
  "cell |\<notin>| mines_of h w board \<Longrightarrow>
     truthful (mines_of h w board) cell (nearby_mines h w board cell)"
  by (simp add: truthful_def nearby_mines_count)

text \<open>
  What the game reports on a 1 by 4 board and on a 3 by 3 board, each with its only mine
  at \<open>(0, 0)\<close>.
\<close>

lemma reports_of_the_game:
  "nearby_mines 1 4 [[True, False, False, False]] (0, 1) = 1
   \<and> nearby_mines 1 4 [[True, False, False, False]] (0, 3) = 0
   \<and> nearby_mines 3 3 [[True, False, False], [False, False, False], [False, False, False]] (1, 1) = 1
   \<and> nearby_mines 3 3 [[True, False, False], [False, False, False], [False, False, False]] (0, 1) = 1"
  by code_simp

lemma true_of_mark_safe: "true_of B s \<Longrightarrow> c |\<notin>| B \<Longrightarrow> true_of B (mark_safe c s)"
proof -
  assume a: "true_of B s" "c |\<notin>| B"
  have "(cells s |-| {|c|}) |\<inter>| B = cells s |\<inter>| B" using a(2) by auto
  then show ?thesis using a(1) by (simp add: true_of_def mark_safe_def)
qed

lemma fcard_diff_inter:
  assumes "S |\<subseteq>| B"
  shows "int (fcard ((A |-| S) |\<inter>| B)) = int (fcard (A |\<inter>| B)) - int (fcard (A |\<inter>| S))"
proof -
  have e: "(A |-| S) |\<inter>| B = (A |\<inter>| B) |-| (A |\<inter>| S)" using assms by auto
  have s: "A |\<inter>| S |\<subseteq>| A |\<inter>| B" using assms by auto
  have "fcard (A |\<inter>| S) \<le> fcard (A |\<inter>| B)" using s by (rule fcard_mono)
  then show ?thesis unfolding e fcard_funion_fsubset [OF s] by simp
qed

lemma true_of_take_mines: "true_of B s \<Longrightarrow> S |\<subseteq>| B \<Longrightarrow> true_of B (take_mines S s)"
  by (simp add: true_of_def take_mines_def fcard_diff_inter)

lemma true_of_take_safes: "true_of B s \<Longrightarrow> S |\<inter>| B = {||} \<Longrightarrow> true_of B (take_safes S s)"
proof -
  assume a: "true_of B s" "S |\<inter>| B = {||}"
  have "(cells s |-| S) |\<inter>| B = cells s |\<inter>| B" using a(2) by auto
  then show ?thesis using a(1) by (simp add: true_of_def take_safes_def)
qed

lemma true_of_candidate:
  assumes "true_of B ns" and "true_of B s" and "cells ns |\<subseteq>| cells s"
  shows "true_of B (candidate ns s)"
proof -
  have e: "(cells s |-| cells ns) |\<inter>| B = (cells s |\<inter>| B) |-| (cells ns |\<inter>| B)" by auto
  have s: "cells ns |\<inter>| B |\<subseteq>| cells s |\<inter>| B" using assms(3) by auto
  have "fcard (cells ns |\<inter>| B) \<le> fcard (cells s |\<inter>| B)" using s by (rule fcard_mono)
  then have "int (fcard ((cells s |-| cells ns) |\<inter>| B))
           = int (fcard (cells s |\<inter>| B)) - int (fcard (cells ns |\<inter>| B))"
    unfolding e fcard_funion_fsubset [OF s] by simp
  then show ?thesis using assms(1,2) by (simp add: true_of_def candidate_def)
qed

lemma in_bounds_upd:
  "in_bounds (a\<lparr>moves_made := mm\<rparr>) = in_bounds a"
  "in_bounds (a\<lparr>mines := m\<rparr>) = in_bounds a"
  "in_bounds (a\<lparr>safes := s\<rparr>) = in_bounds a"
  "in_bounds (a\<lparr>knowledge := k\<rparr>) = in_bounds a"
  by (simp_all add: in_bounds_def fun_eq_iff)

lemma sound_mark_all_mines:
  "sound B a \<Longrightarrow> S |\<subseteq>| B \<Longrightarrow> sound B (mark_all ai_mark_mine S a)"
  unfolding sound_def mark_all_mines list_all_iff
  by (auto simp add: true_of_take_mines in_bounds_upd)

lemma sound_mark_all_safes:
  "sound B a \<Longrightarrow> S |\<inter>| B = {||} \<Longrightarrow> sound B (mark_all ai_mark_safe S a)"
  unfolding sound_def mark_all_safes list_all_iff
  by (auto simp add: true_of_take_safes in_bounds_upd)

lemma sound_nth: "sound B a \<Longrightarrow> i < length (knowledge a) \<Longrightarrow> true_of B (knowledge a ! i)"
  by (simp add: sound_def list_all_length)

lemma known_mines_sound: "true_of B s \<Longrightarrow> fst (known_mines s) |\<subseteq>| B"
proof (cases "int (fcard (cells s)) = count s \<and> count s \<noteq> 0")
  case True
  assume "true_of B s"
  then have "fcard (cells s) \<le> fcard (cells s |\<inter>| B)" using True by (simp add: true_of_def)
  then have "cells s |\<inter>| B = cells s" by (intro fcard_seteq) auto
  then show ?thesis using True by (auto simp add: known_mines_def)
next
  case False
  then show ?thesis by (auto simp add: known_mines_def)
qed

lemma known_safes_sound: "true_of B s \<Longrightarrow> fst (known_safes s) |\<inter>| B = {||}"
  by (auto simp add: known_safes_def true_of_def)

lemma infer_at_sound:
  assumes "sound B a" and "i < length (knowledge a)"
  shows "sound B (infer_at i a)"
proof -
  define a1 where "a1 = (if fst (known_mines (knowledge a ! i)) \<noteq> {||}
                then mark_all ai_mark_mine (fst (known_mines (knowledge a ! i))) a else a)"
  have "fst (known_mines (knowledge a ! i)) |\<subseteq>| B"
    using sound_nth [OF assms] by (rule known_mines_sound)
  then have t1: "sound B a1" using assms(1) by (simp add: a1_def sound_mark_all_mines)
  have l1: "i < length (knowledge a1)" using assms(2) by (simp add: a1_def mark_all_mines)
  have "fst (known_safes (knowledge a1 ! i)) |\<inter>| B = {||}"
    using sound_nth [OF t1 l1] by (rule known_safes_sound)
  then have "sound B (if fst (known_safes (knowledge a1 ! i)) \<noteq> {||}
         then mark_all ai_mark_safe (fst (known_safes (knowledge a1 ! i))) a1 else a1)"
    using t1 by (simp add: sound_mark_all_safes)
  then show ?thesis unfolding infer_at_def Let_def a1_def .
qed

lemma fold_infer_at_sound:
  "sound B a \<Longrightarrow> \<forall>j\<in>set js. j < length (knowledge a) \<Longrightarrow> sound B (fold infer_at js a)"
proof (induction js arbitrary: a)
  case Nil
  then show ?case by simp
next
  case (Cons j js)
  have "sound B (infer_at j a)" using Cons.prems by (simp add: infer_at_sound)
  moreover have "\<forall>k\<in>set js. k < length (knowledge (infer_at j a))"
    using Cons.prems by (simp add: infer_at_length)
  ultimately show ?case using Cons.IH by simp
qed

lemma infer_sound: "sound B a \<Longrightarrow> sound B (infer a)"
  by (simp add: infer_def fold_infer_at_sound)

lemma observe_sound:
  assumes "sound B a" and "truthful B cell cnt"
  shows "sound B (observe a cell cnt)"
proof -
  let ?N = "neighbours cell"
  let ?M = "ffilter (\<lambda>u. u |\<notin>| safes a \<and> u |\<in>| mines a) ?N"
  let ?C = "ffilter (\<lambda>u. u |\<notin>| safes a \<and> u |\<notin>| mines a \<and> in_bounds a u) ?N"
  have ib: "in_bounds a u" if "u |\<in>| B" for u
    using assms(1) that unfolding sound_def by (metis ffmember_filter)
  have ms: "mines a |\<subseteq>| B" and sf: "safes a |\<inter>| B = {||}"
    using assms(1) by (simp_all add: sound_def)
  have m: "?M = ?N |\<inter>| mines a" using ms sf by auto
  have c: "?C |\<inter>| B = (?N |\<inter>| B) |-| (?N |\<inter>| mines a)" using ib sf by auto
  have s: "?N |\<inter>| mines a |\<subseteq>| ?N |\<inter>| B" using ms by auto
  have "fcard (?N |\<inter>| mines a) \<le> fcard (?N |\<inter>| B)" using s by (rule fcard_mono)
  then have "int (fcard (?C |\<inter>| B)) = int (fcard (?N |\<inter>| B)) - int (fcard ?M)"
    unfolding c m by (simp add: fcard_funion_fsubset [OF s])
  then have new: "true_of B \<lparr>cells = ?C, count = cnt - int (fcard ?M)\<rparr>"
    using assms(2) by (simp add: true_of_def truthful_def)
  have old: "list_all (true_of B) (map (mark_safe cell) (knowledge a))"
    using assms unfolding sound_def truthful_def list_all_iff by (auto simp add: true_of_mark_safe)
  have "ffilter (in_bounds (observe a cell cnt)) B = B"
    using assms(1) by (simp add: sound_def observe_eq in_bounds_upd)
  moreover have "mines (observe a cell cnt) |\<subseteq>| B" using ms by (simp add: observe_eq)
  moreover have "safes (observe a cell cnt) |\<inter>| B = {||}"
    using sf assms(2) by (simp add: observe_eq truthful_def)
  moreover have "list_all (true_of B) (knowledge (observe a cell cnt))"
    using old new by (simp add: observe_eq)
  ultimately show ?thesis unfolding sound_def by simp
qed

lemma infer_length: "length (knowledge (infer a)) = length (knowledge a)"
  by (simp add: infer_def fold_infer_at_length)

lemma scanned_length: "length (knowledge (scanned a cell cnt)) = Suc (length (knowledge a))"
  by (simp add: scanned_def infer_length observe_eq)

lemma add_knowledge_sound:
  assumes "sound B a" and "truthful B cell cnt"
  shows "\<exists>a'. add_knowledge a cell cnt = Some a' \<and> sound B a'"
proof -
  let ?a = "scanned a cell cnt" and ?ns = "scanned_sentence a cell cnt"
  have sa: "sound B ?a" unfolding scanned_def using assms by (simp add: infer_sound observe_sound)
  have tn: "true_of B ?ns"
    unfolding scanned_sentence_def using sa by (rule sound_nth) (simp add: scanned_length)
  then have "0 \<le> count ?ns" by (simp add: true_of_def)
  then obtain ks' where k: "subsume ?ns 0 (knowledge ?a) = Some ks'"
    using subsume_terminates [of ?ns 0 "knowledge ?a"] by auto
  have "list_all (true_of B) ks'"
  proof (rule subsume_preserves [OF k])
    show "list_all (true_of B) (knowledge ?a)" using sa by (simp add: sound_def)
    show "true_of B (candidate ?ns s)" if "true_of B s" "triggers ?ns s" for s
      using tn that by (simp add: true_of_candidate triggers_def)
  qed
  then have "sound B (?a\<lparr>knowledge := ks'\<rparr>)"
    using sa by (simp add: sound_def in_bounds_upd)
  then show ?thesis using k by (simp add: add_knowledge_eq)
qed

subsection \<open>Termination\<close>

text \<open>
  C10, amended. \<open>add_knowledge\<close> returns whenever \<open>new_sentence\<close>, as steps 1 to 4 leave
  it, has a cell or a count that is not negative: then a candidate is not itself a
  sentence that triggers the step again, or the counts of the candidates go down to 0,
  and the loop over the growing list comes to its end. This is so, in particular,
  whenever the agent is sound for a board and the report is truthful for it, and the
  agent is then sound for that board when the call returns.
\<close>

theorem add_knowledge_returns:
  "(cells (scanned_sentence a cell cnt) \<noteq> {||} \<or> 0 \<le> count (scanned_sentence a cell cnt)
      \<longrightarrow> (\<exists>a'. add_knowledge a cell cnt = Some a'))
   \<and> (sound B a \<and> truthful B cell cnt
      \<longrightarrow> (\<exists>a'. add_knowledge a cell cnt = Some a' \<and> sound B a'))"
proof (intro conjI impI)
  assume "cells (scanned_sentence a cell cnt) \<noteq> {||} \<or> 0 \<le> count (scanned_sentence a cell cnt)"
  from subsume_terminates [OF this, of 0 "knowledge (scanned a cell cnt)"]
  show "\<exists>a'. add_knowledge a cell cnt = Some a'" by (auto simp add: add_knowledge_eq)
next
  assume "sound B a \<and> truthful B cell cnt"
  then show "\<exists>a'. add_knowledge a cell cnt = Some a' \<and> sound B a'"
    by (simp add: add_knowledge_sound)
qed

lemma scanned_sentence_edge:
  "scanned_sentence centre_opened (0, 1) 1 =
     \<lparr>cells = {|(0, 0), (0, 2), (1, 0), (1, 2)|}, count = 1\<rparr>"
  by code_simp

theorem add_knowledge_returns_witness:
  "scanned_sentence centre_opened (0, 1) 1 =
     \<lparr>cells = {|(0, 0), (0, 2), (1, 0), (1, 2)|}, count = 1\<rparr>
   \<and> (\<exists>a'. add_knowledge centre_opened (0, 1) 1 = Some a')
   \<and> sound {|(0, 0)|} centre_opened \<and> truthful {|(0, 0)|} (0, 1) 1
   \<and> (\<exists>a'. add_knowledge centre_opened (0, 1) 1 = Some a' \<and> sound {|(0, 0)|} a')"
proof -
  have s: "sound {|(0, 0)|} centre_opened" by code_simp
  have t: "truthful {|(0, 0)|} (0, 1) 1" by code_simp
  show ?thesis
    using add_knowledge_returns [of centre_opened "(0, 1)" 1 "{|(0, 0)|}"] s t
    by (simp add: scanned_sentence_edge)
qed

text \<open>
  C10, as stated, fails. On a 1 by 5 board, after \<open>add_knowledge((0, 0), 1)\<close> and
  \<open>add_knowledge((0, 3), 1)\<close> the agent knows the mine \<open>(0, 1)\<close> and the sentence
  \<open>{(0, 2), (0, 4)} = 1\<close>. \<open>add_knowledge((0, 0), 0)\<close> then builds the sentence \<open>{} = -1\<close>,
  which is a subset of every sentence: the loop appends \<open>{(0, 2), (0, 4)} = 2\<close>, visits it,
  appends \<open>{(0, 2), (0, 4)} = 3\<close>, and so on without end (on a machine, until the list
  fills the memory). The equality test never finds the candidate in the list, since its
  count is above every count in the list.
\<close>

lemma scanned_strip:
  "scanned strip_opened (0, 0) 0 =
     strip_opened\<lparr>knowledge := knowledge strip_opened @ [\<lparr>cells = {||}, count = - 1\<rparr>]\<rparr>"
  by code_simp

lemma scanned_sentence_strip:
  "scanned_sentence strip_opened (0, 0) 0 = \<lparr>cells = {||}, count = - 1\<rparr>"
  by code_simp

theorem add_knowledge_loops:
  "ai_run [Add_knowledge (0, 0) 1, Add_knowledge (0, 3) 1] (init_ai 1 5) = Some strip_opened
   \<and> add_knowledge strip_opened (0, 0) 0 = None"
proof -
  have "ahead \<lparr>cells = {||}, count = - 1\<rparr> 0
          [\<lparr>cells = {||}, count = 0\<rparr>, \<lparr>cells = {|(0, 2), (0, 4)|}, count = 1\<rparr>,
           \<lparr>cells = {||}, count = - 1\<rparr>]"
    unfolding ahead_def by (auto intro!: exI [of _ 1])
  then have "subsume \<lparr>cells = {||}, count = - 1\<rparr> 0
          [\<lparr>cells = {||}, count = 0\<rparr>, \<lparr>cells = {|(0, 2), (0, 4)|}, count = 1\<rparr>,
           \<lparr>cells = {||}, count = - 1\<rparr>] = None"
    by (rule subsume_diverges)
  moreover have "knowledge (scanned strip_opened (0, 0) 0) =
          [\<lparr>cells = {||}, count = 0\<rparr>, \<lparr>cells = {|(0, 2), (0, 4)|}, count = 1\<rparr>,
           \<lparr>cells = {||}, count = - 1\<rparr>]"
    unfolding scanned_strip by (simp add: strip_opened_def)
  ultimately have "subsume (scanned_sentence strip_opened (0, 0) 0) 0
                     (knowledge (scanned strip_opened (0, 0) 0)) = None"
    unfolding scanned_sentence_strip by simp
  then show ?thesis using run_strip by (simp add: add_knowledge_eq)
qed

end
